theory Spec2Isabelle
  imports Main
begin

section \<open>Text\<close>

text \<open>
  A Python \<open>str\<close> is a sequence of Unicode code points; it is modelled as a list of
  natural numbers, one per code point. \<open>lit\<close> turns an ASCII literal into such a list.
\<close>

type_synonym pystr = "nat list"

definition lit :: "string \<Rightarrow> pystr" where
  "lit s = map of_char s"

abbreviation DQUOTE :: nat where "DQUOTE \<equiv> 34"
abbreviation COMMA :: nat where "COMMA \<equiv> 44"
abbreviation MINUS :: nat where "MINUS \<equiv> 45"
abbreviation COLON :: nat where "COLON \<equiv> 58"
abbreviation LBRACKET :: nat where "LBRACKET \<equiv> 91"
abbreviation BACKSLASH :: nat where "BACKSLASH \<equiv> 92"
abbreviation RBRACKET :: nat where "RBRACKET \<equiv> 93"
abbreviation LBRACE :: nat where "LBRACE \<equiv> 123"
abbreviation RBRACE :: nat where "RBRACE \<equiv> 125"

definition starts_with :: "pystr \<Rightarrow> pystr \<Rightarrow> bool" where
  "starts_with p t = (take (length p) t = p)"

text \<open>
  The whitespace of \<open>str.strip()\<close> and of \<open>\s\<close> in a \<open>str\<close> pattern: the code points
  for which Python's \<open>str.isspace\<close> holds.
\<close>

definition is_space :: "nat \<Rightarrow> bool" where
  "is_space c = ((9 \<le> c \<and> c \<le> 13) \<or> (28 \<le> c \<and> c \<le> 32) \<or> c = 133 \<or> c = 160
     \<or> c = 5760 \<or> (8192 \<le> c \<and> c \<le> 8202) \<or> c = 8232 \<or> c = 8233 \<or> c = 8239
     \<or> c = 8287 \<or> c = 12288)"

definition strip :: "pystr \<Rightarrow> pystr" where
  "strip s = rev (dropWhile is_space (rev (dropWhile is_space s)))"

section \<open>The regular expression of \<open>analyze_feedback\<close>\<close>

text \<open>
  \<^verbatim>\<open>re.search(r"```json\s*(\{.*\})\s*```|(\{.*\})", text, re.DOTALL)\<close>

  \<open>dot_star_close k cs\<close> is the text matched by \<open>.*\}\<close> at \<open>cs\<close> when the rest of the
  pattern, \<open>k\<close>, has to match behind it: \<open>.*\<close> is greedy and, with DOTALL, takes any
  code point, so backtracking settles on the last closing brace behind which \<open>k\<close>
  matches.
\<close>

fun dot_star_close :: "(pystr \<Rightarrow> bool) \<Rightarrow> pystr \<Rightarrow> pystr option" where
  "dot_star_close k [] = None"
| "dot_star_close k (c # cs) =
     (case dot_star_close k cs of
        Some g \<Rightarrow> Some (c # g)
      | None \<Rightarrow> if c = RBRACE \<and> k cs then Some [c] else None)"

text \<open>The group \<open>(\{.*\})\<close> at \<open>t\<close>, followed by \<open>k\<close>.\<close>

definition brace_group :: "(pystr \<Rightarrow> bool) \<Rightarrow> pystr \<Rightarrow> pystr option" where
  "brace_group k t =
     (case t of
        [] \<Rightarrow> None
      | c # cs \<Rightarrow> if c = LBRACE then map_option ((#) c) (dot_star_close k cs) else None)"

text \<open>
  \<open>\s*```\<close> behind the group of the first alternative. A backtick is no whitespace, so
  \<open>\s*\<close> can only stop at the end of the whitespace run.
\<close>

definition fence_close :: "pystr \<Rightarrow> bool" where
  "fence_close r = starts_with (lit ''```'') (dropWhile is_space r)"

text \<open>The two alternatives at one position; each gives its group.\<close>

definition match_fenced :: "pystr \<Rightarrow> pystr option" where
  "match_fenced t =
     (if starts_with (lit ''```json'') t
      then brace_group fence_close (dropWhile is_space (drop 7 t))
      else None)"

definition match_braces :: "pystr \<Rightarrow> pystr option" where
  "match_braces t = brace_group (\<lambda>r. True) t"

text \<open>
  \<open>re.search\<close> tries the positions from left to right and, at each, the first
  alternative before the second. The result is the pair (\<open>group(1)\<close>, \<open>group(2)\<close>) of
  the match; a group that took no part is \<open>None\<close>.
\<close>

fun re_search :: "pystr \<Rightarrow> (pystr option \<times> pystr option) option" where
  "re_search [] = None"
| "re_search (c # cs) =
     (case match_fenced (c # cs) of
        Some g \<Rightarrow> Some (Some g, None)
      | None \<Rightarrow>
          (case match_braces (c # cs) of
             Some g \<Rightarrow> Some (None, Some g)
           | None \<Rightarrow> re_search cs))"

text \<open>\<open>json_match.group(1) or json_match.group(2)\<close>: the first if it is a non-empty string.\<close>

definition group_or :: "pystr option \<Rightarrow> pystr option \<Rightarrow> pystr option" where
  "group_or a b = (case a of Some (x # xs) \<Rightarrow> Some (x # xs) | _ \<Rightarrow> b)"

section \<open>JSON values and \<open>json.loads\<close>\<close>

text \<open>
  What \<open>json.loads\<close> returns: \<open>None\<close>, a bool, an int, a float, a \<open>str\<close>, a list or a
  dict. A dict is the list of its items in insertion order. Floating point is not
  modelled: a float is kept as the literal that denotes it.
\<close>

datatype json =
    JNull
  | JBool bool
  | JInt int
  | JFloat pystr
  | JString pystr
  | JArray "json list"
  | JObject "(pystr \<times> json) list"

text \<open>\<open>d[k] = v\<close> on a dict: a key that is present keeps its place and takes the new value.\<close>

fun dict_set :: "(pystr \<times> json) list \<Rightarrow> pystr \<Rightarrow> json \<Rightarrow> (pystr \<times> json) list" where
  "dict_set [] k v = [(k, v)]"
| "dict_set ((k', v') # kvs) k v =
     (if k' = k then (k', v) # kvs else (k', v') # dict_set kvs k v)"

text \<open>The whitespace of the JSON grammar: space, tab, line feed, carriage return.\<close>

definition is_json_ws :: "nat \<Rightarrow> bool" where
  "is_json_ws c = (c = 32 \<or> c = 9 \<or> c = 10 \<or> c = 13)"

definition skip_ws :: "pystr \<Rightarrow> pystr" where
  "skip_ws s = dropWhile is_json_ws s"

definition is_digit :: "nat \<Rightarrow> bool" where
  "is_digit c = (48 \<le> c \<and> c \<le> 57)"

definition digits_value :: "pystr \<Rightarrow> nat" where
  "digits_value ds = foldl (\<lambda>a c. 10 * a + (c - 48)) 0 ds"

subsection \<open>Numbers\<close>

text \<open>
  The exponent part \<open>[eE][-+]?[0-9]+\<close> at \<open>r\<close>: its text and what follows it. Without a
  digit the scanner backtracks and there is no exponent.
\<close>

definition exponent :: "pystr \<Rightarrow> pystr \<times> pystr" where
  "exponent r =
     (case r of
        [] \<Rightarrow> ([], r)
      | e # r1 \<Rightarrow>
          if e = 101 \<or> e = 69 then
            (let (sg, r2) = (case r1 of
                               [] \<Rightarrow> ([], r1)
                             | c # cs \<Rightarrow> if c = MINUS \<or> c = 43 then ([c], cs) else ([], r1))
             in if takeWhile is_digit r2 = [] then ([], r)
                else (e # sg @ takeWhile is_digit r2, dropWhile is_digit r2))
          else ([], r))"

text \<open>The fraction part \<open>\.[0-9]+\<close> at \<open>r\<close>.\<close>

definition fraction :: "pystr \<Rightarrow> pystr \<times> pystr" where
  "fraction r =
     (case r of
        c # d # ds \<Rightarrow>
          if c = 46 \<and> is_digit d then (c # d # takeWhile is_digit ds, dropWhile is_digit ds)
          else ([], r)
      | _ \<Rightarrow> ([], r))"

text \<open>
  Behind the integer part \<open>ds\<close> (with its sign): a fraction or an exponent makes the
  number a float, otherwise it is an int.
\<close>

definition number_tail :: "bool \<Rightarrow> pystr \<Rightarrow> pystr \<Rightarrow> (json \<times> pystr) option" where
  "number_tail neg ds r =
     (let (frac, r1) = fraction r;
          (ex, r2) = exponent r1
      in if frac = [] \<and> ex = []
         then Some (JInt (if neg then - int (digits_value ds) else int (digits_value ds)), r2)
         else Some (JFloat ((if neg then [MINUS] else []) @ ds @ frac @ ex), r2))"

definition match_number :: "pystr \<Rightarrow> (json \<times> pystr) option" where
  "match_number s =
     (let (neg, s1) = (case s of
                         [] \<Rightarrow> (False, s)
                       | c # cs \<Rightarrow> if c = MINUS then (True, cs) else (False, s))
      in case s1 of
           [] \<Rightarrow> None
         | d # ds \<Rightarrow>
             if d = 48 then number_tail neg [d] ds
             else if 49 \<le> d \<and> d \<le> 57
             then number_tail neg (d # takeWhile is_digit ds) (dropWhile is_digit ds)
             else None)"

subsection \<open>Strings\<close>

definition hex_val :: "nat \<Rightarrow> nat option" where
  "hex_val c =
     (if 48 \<le> c \<and> c \<le> 57 then Some (c - 48)
      else if 97 \<le> c \<and> c \<le> 102 then Some (c - 87)
      else if 65 \<le> c \<and> c \<le> 70 then Some (c - 55)
      else None)"

text \<open>The four hexadecimal digits of a \<open>\uXXXX\<close> escape, at \<open>r\<close>.\<close>

definition decode_uXXXX :: "pystr \<Rightarrow> nat option" where
  "decode_uXXXX r =
     (case r of
        a # b # c # d # r' \<Rightarrow>
          (case (hex_val a, hex_val b, hex_val c, hex_val d) of
             (Some x, Some y, Some z, Some w) \<Rightarrow> Some (((x * 16 + y) * 16 + z) * 16 + w)
           | _ \<Rightarrow> None)
      | _ \<Rightarrow> None)"

definition is_high_surrogate :: "nat \<Rightarrow> bool" where
  "is_high_surrogate c = (55296 \<le> c \<and> c \<le> 56319)"

definition is_low_surrogate :: "nat \<Rightarrow> bool" where
  "is_low_surrogate c = (56320 \<le> c \<and> c \<le> 57343)"

definition join_surrogates :: "nat \<Rightarrow> nat \<Rightarrow> nat" where
  "join_surrogates hi lo = 65536 + (hi - 55296) * 1024 + (lo - 56320)"

definition simple_escape :: "nat \<Rightarrow> nat option" where
  "simple_escape e =
     (if e = DQUOTE then Some DQUOTE
      else if e = BACKSLASH then Some BACKSLASH
      else if e = 47 then Some 47
      else if e = 98 then Some 8
      else if e = 102 then Some 12
      else if e = 110 then Some 10
      else if e = 114 then Some 13
      else if e = 116 then Some 9
      else None)"

definition prepend :: "nat \<Rightarrow> (pystr \<times> pystr) option \<Rightarrow> (pystr \<times> pystr) option" where
  "prepend c res = map_option (\<lambda>(s, r). (c # s, r)) res"

text \<open>
  \<open>scanstring\<close> behind the opening quote (strict mode): the decoded string and the text
  behind the closing quote. A control character, an unknown escape, a malformed
  \<open>\uXXXX\<close> and a missing closing quote are errors. A high surrogate escape directly
  followed by a low surrogate escape is one code point.
\<close>

fun scanstring :: "pystr \<Rightarrow> (pystr \<times> pystr) option" where
  "scanstring [] = None"
| "scanstring (c # cs) =
     (if c = DQUOTE then Some ([], cs)
      else if c = BACKSLASH then
        (case cs of
           [] \<Rightarrow> None
         | e # r \<Rightarrow>
             if e = 117 then
               (case decode_uXXXX r of
                  None \<Rightarrow> None
                | Some uni \<Rightarrow>
                    if is_high_surrogate uni \<and> starts_with [BACKSLASH, 117] (drop 4 r) then
                      (case decode_uXXXX (drop 6 r) of
                         None \<Rightarrow> None
                       | Some uni2 \<Rightarrow>
                           if is_low_surrogate uni2
                           then prepend (join_surrogates uni uni2) (scanstring (drop 10 r))
                           else prepend uni (scanstring (drop 4 r)))
                    else prepend uni (scanstring (drop 4 r)))
             else
               (case simple_escape e of
                  None \<Rightarrow> None
                | Some ch \<Rightarrow> prepend ch (scanstring r)))
      else if c \<le> 31 then None
      else prepend c (scanstring cs))"

subsection \<open>Values\<close>

text \<open>
  \<open>scan_once\<close> with the loops of \<open>_parse_array\<close> and \<open>_parse_object\<close>. The first argument
  bounds the number of nested calls and loop rounds; \<open>json_loads\<close> starts with more than
  any text can use.
\<close>

fun scan_once :: "nat \<Rightarrow> pystr \<Rightarrow> (json \<times> pystr) option"
  and parse_array :: "nat \<Rightarrow> pystr \<Rightarrow> json list \<Rightarrow> (json \<times> pystr) option"
  and parse_object :: "nat \<Rightarrow> pystr \<Rightarrow> (pystr \<times> json) list \<Rightarrow> (json \<times> pystr) option"
where
  "scan_once 0 s = None"
| "scan_once (Suc n) [] = None"
| "scan_once (Suc n) (c # cs) =
     (if c = DQUOTE then map_option (\<lambda>(k, r). (JString k, r)) (scanstring cs)
      else if c = LBRACE then
        (case skip_ws cs of
           [] \<Rightarrow> None
         | d # r \<Rightarrow> if d = RBRACE then Some (JObject [], r) else parse_object n (d # r) [])
      else if c = LBRACKET then
        (case skip_ws cs of
           [] \<Rightarrow> None
         | d # r \<Rightarrow> if d = RBRACKET then Some (JArray [], r) else parse_array n (d # r) [])
      else if starts_with (lit ''null'') (c # cs) then Some (JNull, drop 4 (c # cs))
      else if starts_with (lit ''true'') (c # cs) then Some (JBool True, drop 4 (c # cs))
      else if starts_with (lit ''false'') (c # cs) then Some (JBool False, drop 5 (c # cs))
      else if starts_with (lit ''NaN'') (c # cs) then Some (JFloat (lit ''NaN''), drop 3 (c # cs))
      else if starts_with (lit ''Infinity'') (c # cs)
      then Some (JFloat (lit ''Infinity''), drop 8 (c # cs))
      else if starts_with (lit ''-Infinity'') (c # cs)
      then Some (JFloat (lit ''-Infinity''), drop 9 (c # cs))
      else match_number (c # cs))"
| "parse_array 0 s acc = None"
| "parse_array (Suc n) s acc =
     (case scan_once n s of
        None \<Rightarrow> None
      | Some (v, r) \<Rightarrow>
          (case skip_ws r of
             [] \<Rightarrow> None
           | d # r' \<Rightarrow>
               if d = RBRACKET then Some (JArray (acc @ [v]), r')
               else if d = COMMA then parse_array n (skip_ws r') (acc @ [v])
               else None))"
| "parse_object 0 s acc = None"
| "parse_object (Suc n) s acc =
     (case s of
        [] \<Rightarrow> None
      | q # s1 \<Rightarrow>
          if q \<noteq> DQUOTE then None
          else
            (case scanstring s1 of
               None \<Rightarrow> None
             | Some (key, r) \<Rightarrow>
                 (case skip_ws r of
                    [] \<Rightarrow> None
                  | c # r1 \<Rightarrow>
                      if c \<noteq> COLON then None
                      else
                        (case scan_once n (skip_ws r1) of
                           None \<Rightarrow> None
                         | Some (v, r2) \<Rightarrow>
                             (case skip_ws r2 of
                                [] \<Rightarrow> None
                              | d # r3 \<Rightarrow>
                                  if d = RBRACE then Some (JObject (dict_set acc key v), r3)
                                  else if d = COMMA
                                  then parse_object n (skip_ws r3) (dict_set acc key v)
                                  else None)))))"

text \<open>The exceptions that the program meets.\<close>

datatype exn =
  ServiceError pystr | JSONDecodeError | UnicodeDecodeError | AttributeError | TypeError

text \<open>
  \<open>json.loads\<close> on a \<open>str\<close>: a leading byte order mark is refused, whitespace around the
  value is skipped, and anything behind the value is an error.

  The function is the grammar of the scanner, on an interpreter without resource limits.
  CPython also bounds the depth of the recursion and the number of digits of an integer
  (4300 by default): beyond them \<open>json.loads\<close> raises \<open>RecursionError\<close> or \<open>ValueError\<close>,
  neither of them a \<open>JSONDecodeError\<close>. Texts of that size are outside this model; the
  results below hold for texts within the limits.
\<close>

definition json_loads :: "pystr \<Rightarrow> exn + json" where
  "json_loads s =
     (if starts_with [65279] s then Inl JSONDecodeError
      else
        (case scan_once (2 * length s + 2) (skip_ws s) of
           None \<Rightarrow> Inl JSONDecodeError
         | Some (v, r) \<Rightarrow> if skip_ws r = [] then Inr v else Inl JSONDecodeError))"

section \<open>\<open>json.dump\<close> with \<open>indent=4\<close>\<close>

fun nat_digits :: "nat \<Rightarrow> pystr" where
  "nat_digits n = (if n < 10 then [48 + n] else nat_digits (n div 10) @ [48 + n mod 10])"

declare nat_digits.simps [simp del]

text \<open>\<open>str\<close> of an int.\<close>

definition int_str :: "int \<Rightarrow> pystr" where
  "int_str i = (if i < 0 then MINUS # nat_digits (nat (- i)) else nat_digits (nat i))"

definition hex_digit :: "nat \<Rightarrow> nat" where
  "hex_digit d = (if d < 10 then 48 + d else 87 + d)"

text \<open>\<^verbatim>\<open>'{0:04x}'.format(n)\<close> for \<open>n\<close> below \<open>0x10000\<close>.\<close>

definition hex4 :: "nat \<Rightarrow> pystr" where
  "hex4 n = [hex_digit (n div 4096 mod 16), hex_digit (n div 256 mod 16),
             hex_digit (n div 16 mod 16), hex_digit (n mod 16)]"

text \<open>
  \<open>encode_basestring_ascii\<close> (\<open>ensure_ascii\<close> is on by default): the printable ASCII
  characters stand for themselves, except the quote and the backslash; every other code
  point is escaped, above the basic plane as a surrogate pair.
\<close>

definition escape_char :: "nat \<Rightarrow> pystr" where
  "escape_char c =
     (if c = BACKSLASH then [BACKSLASH, BACKSLASH]
      else if c = DQUOTE then [BACKSLASH, DQUOTE]
      else if c = 8 then [BACKSLASH, 98]
      else if c = 12 then [BACKSLASH, 102]
      else if c = 10 then [BACKSLASH, 110]
      else if c = 13 then [BACKSLASH, 114]
      else if c = 9 then [BACKSLASH, 116]
      else if 32 \<le> c \<and> c \<le> 126 then [c]
      else if c < 65536 then BACKSLASH # 117 # hex4 c
      else BACKSLASH # 117 # hex4 (55296 + (c - 65536) div 1024 mod 1024)
           @ BACKSLASH # 117 # hex4 (56320 + (c - 65536) mod 1024))"

definition encode_string :: "pystr \<Rightarrow> pystr" where
  "encode_string s = DQUOTE # concat (map escape_char s) @ [DQUOTE]"

definition newline_indent :: "nat \<Rightarrow> pystr" where
  "newline_indent lvl = 10 # replicate (4 * lvl) 32"

fun join :: "pystr \<Rightarrow> pystr list \<Rightarrow> pystr" where
  "join sep [] = []"
| "join sep [x] = x"
| "join sep (x # y # ys) = x @ sep @ join sep (y # ys)"

text \<open>
  The encoder at nesting level \<open>lvl\<close>: an empty list or dict is printed closed, the items
  of a non-empty one stand on lines of their own, indented by four spaces per level and
  separated by a comma; key and value are separated by a colon and a space.
\<close>

fun encode :: "nat \<Rightarrow> json \<Rightarrow> pystr" where
  "encode lvl JNull = lit ''null''"
| "encode lvl (JBool b) = (if b then lit ''true'' else lit ''false'')"
| "encode lvl (JInt i) = int_str i"
| "encode lvl (JFloat l) = l"
| "encode lvl (JString s) = encode_string s"
| "encode lvl (JArray vs) =
     (if vs = [] then lit ''[]''
      else LBRACKET # newline_indent (Suc lvl)
           @ join (COMMA # newline_indent (Suc lvl)) (map (encode (Suc lvl)) vs)
           @ newline_indent lvl @ [RBRACKET])"
| "encode lvl (JObject kvs) =
     (if kvs = [] then lit ''{}''
      else LBRACE # newline_indent (Suc lvl)
           @ join (COMMA # newline_indent (Suc lvl))
               (map (\<lambda>kv. encode_string (fst kv) @ [COLON, 32] @ encode (Suc lvl) (snd kv)) kvs)
           @ newline_indent lvl @ [RBRACE])"

definition json_dumps :: "json \<Rightarrow> pystr" where
  "json_dumps v = encode 0 v"

section \<open>The store: \<open>load_data\<close> and \<open>save_data\<close>\<close>

text \<open>
  What \<open>DATA_FILE\<close> holds: bytes that \<open>open(DATA_FILE, "r")\<close> decodes to text, or bytes
  that are no text in the encoding of \<open>open\<close>. The state of the file is \<open>None\<close> when
  it does not exist.
\<close>

datatype file_content = Text pystr | Undecodable

type_synonym file_state = "file_content option"

text \<open>
  \<open>json.load(f)\<close> is \<open>json.loads(f.read())\<close>; reading raises \<open>UnicodeDecodeError\<close> when the
  bytes cannot be decoded.
\<close>

definition json_load :: "file_content \<Rightarrow> exn + json" where
  "json_load c = (case c of Text t \<Rightarrow> json_loads t | Undecodable \<Rightarrow> Inl UnicodeDecodeError)"

text \<open>
  \<^verbatim>\<open>
  def load_data():
      if not os.path.exists(DATA_FILE):
          return []
      with open(DATA_FILE, "r") as f:
          try:
              return json.load(f)
          except json.JSONDecodeError:
              return []
  \<close>
  The handler takes \<open>JSONDecodeError\<close> alone; any other exception leaves the function.
\<close>

definition load_data :: "file_state \<Rightarrow> exn + json" where
  "load_data f =
     (case f of
        None \<Rightarrow> Inr (JArray [])
      | Some c \<Rightarrow>
          (case json_load c of
             Inl JSONDecodeError \<Rightarrow> Inr (JArray [])
           | Inl e \<Rightarrow> Inl e
           | Inr v \<Rightarrow> Inr v))"

text \<open>
  \<^verbatim>\<open>
  def save_data(new_entry):
      data = load_data()
      data.append(new_entry)
      with open(DATA_FILE, "w") as f:
          json.dump(data, f, indent=4)
  \<close>
  Only a list has \<open>append\<close>. The result is the new state of the file; \<open>json.dump\<close>
  writes ASCII text.
\<close>

definition save_data :: "file_state \<Rightarrow> json \<Rightarrow> exn + file_state" where
  "save_data f new_entry =
     (case load_data f of
        Inl e \<Rightarrow> Inl e
      | Inr data \<Rightarrow>
          (case data of
             JArray xs \<Rightarrow> Inr (Some (Text (json_dumps (JArray (xs @ [new_entry])))))
           | _ \<Rightarrow> Inl AttributeError))"

section \<open>\<open>analyze_feedback\<close>\<close>

definition prompt :: "int \<Rightarrow> pystr \<Rightarrow> pystr" where
  \<open>prompt rating review =
     lit ''\<newline>    You are a customer service AI analysis tool. Your job is to process customer feedback and provide structured insights.\<newline>\<newline>    Input Data:\<newline>    - User Rating: ''
     @ int_str rating
     @ lit ''/5\<newline>    - User Review: "''
     @ review
     @ lit ''"\<newline>\<newline>    Task:\<newline>    Analyze the input and provide a JSON response with exactly these keys:\<newline>    1. "user_response": A polite, empathetic, and specific reply to the user (max 2 sentences). For positive reviews, express appreciation. For negative reviews, apologize and validate their feelings.\<newline>    2. "summary": A concise, 5-10 word **root-cause summary** of the feedback (e.g., "Slow service and cold food issue").\<newline>    3. "action": A single, concrete, and measurable recommended next step for the admin (e.g., "Schedule retraining for front-of-house staff on order speed.").\<newline>\<newline>    Ensure the final output is ONLY a valid JSON object.\<newline>    ''\<close>

text \<open>The dict that the \<open>except\<close> branch returns.\<close>

definition fallback :: json where
  "fallback = JObject
     [(lit ''user_response'', JString (lit ''Thank you for sharing your experience. We are currently experiencing a system issue and will address your feedback shortly.'')),
      (lit ''summary'', JString (lit ''System/API Error'')),
      (lit ''action'', JString (lit ''Check system logs and API usage.''))]"

text \<open>
  The body of the \<open>try\<close>. \<open>generate_content\<close> is the external service: from the prompt
  to the text of its response, or to the exception that the call or the access to
  \<open>response.text\<close> raises.
\<close>

definition analyze_try :: "(pystr \<Rightarrow> exn + pystr) \<Rightarrow> int \<Rightarrow> pystr \<Rightarrow> exn + json" where
  "analyze_try generate_content rating review =
     (case generate_content (prompt rating review) of
        Inl e \<Rightarrow> Inl e
      | Inr response_text \<Rightarrow>
          (let text = strip response_text in
           case re_search text of
             Some (g1, g2) \<Rightarrow>
               (case group_or g1 g2 of
                  Some json_string \<Rightarrow> json_loads json_string
                | None \<Rightarrow> Inl TypeError)
           | None \<Rightarrow> json_loads text))"

text \<open>What the page shows.\<close>

datatype ui_event = StError exn | StSuccess pystr | StInfo json

text \<open>
  \<open>except Exception\<close> takes every exception of the body, reports it with \<open>st.error\<close>
  and returns the fallback. The result is the returned value and what was shown.
\<close>

definition analyze_feedback ::
  "(pystr \<Rightarrow> exn + pystr) \<Rightarrow> int \<Rightarrow> pystr \<Rightarrow> json \<times> ui_event list" where
  "analyze_feedback generate_content rating review =
     (case analyze_try generate_content rating review of
        Inr v \<Rightarrow> (v, [])
      | Inl e \<Rightarrow> (fallback, [StError e]))"

section \<open>The submission handler\<close>

text \<open>\<open>d.get(k, default)\<close>: only a dict has \<open>get\<close>.\<close>

definition py_get :: "json \<Rightarrow> pystr \<Rightarrow> json \<Rightarrow> exn + json" where
  "py_get d k dflt =
     (case d of
        JObject kvs \<Rightarrow> Inr (case map_of kvs k of Some v \<Rightarrow> v | None \<Rightarrow> dflt)
      | _ \<Rightarrow> Inl AttributeError)"

record app_state =
  data_file :: file_state
  screen :: "ui_event list"

text \<open>
  The dict \<open>entry\<close>. \<open>now\<close> is \<^verbatim>\<open>datetime.now().strftime("%Y-%m-%d %H:%M:%S")\<close>.
\<close>

definition make_entry :: "pystr \<Rightarrow> int \<Rightarrow> pystr \<Rightarrow> json \<Rightarrow> exn + json" where
  "make_entry now rating review ai_results =
     (case py_get ai_results (lit ''user_response'') (JString []) of
        Inl e \<Rightarrow> Inl e
      | Inr r \<Rightarrow>
          (case py_get ai_results (lit ''summary'') (JString []) of
             Inl e \<Rightarrow> Inl e
           | Inr s \<Rightarrow>
               (case py_get ai_results (lit ''action'') (JString []) of
                  Inl e \<Rightarrow> Inl e
                | Inr a \<Rightarrow>
                    Inr (JObject
                      [(lit ''timestamp'', JString now),
                       (lit ''rating'', JInt rating),
                       (lit ''review'', JString review),
                       (lit ''ai_response'', r),
                       (lit ''ai_summary'', s),
                       (lit ''ai_action'', a)]))))"

text \<open>\<open>entry['ai_response']\<close>.\<close>

definition ai_response_of :: "json \<Rightarrow> json" where
  "ai_response_of entry =
     (case entry of
        JObject kvs \<Rightarrow> (case map_of kvs (lit ''ai_response'') of Some v \<Rightarrow> v | None \<Rightarrow> JNull)
      | _ \<Rightarrow> JNull)"

text \<open>
  The body of the form, run when the page is drawn:
  \<^verbatim>\<open>
  if submitted and review:
      ai_results = analyze_feedback(rating, review)
      entry = {...}
      save_data(entry)
      st.success("Thank you!")
      st.info(f"**Our Response:** {entry['ai_response']}")
  \<close>
  An exception ends the run; the page then shows the exception instead of the response.
  \<open>StInfo v\<close> stands for the line \<open>**Our Response:**\<close> followed by \<open>v\<close>.
\<close>

definition feedback_form ::
  "(pystr \<Rightarrow> exn + pystr) \<Rightarrow> pystr \<Rightarrow> bool \<Rightarrow> int \<Rightarrow> pystr \<Rightarrow> app_state \<Rightarrow> exn + app_state" where
  "feedback_form generate_content now submitted rating review st =
     (if submitted \<and> review \<noteq> [] then
        (case analyze_feedback generate_content rating review of
           (ai_results, shown) \<Rightarrow>
             (case make_entry now rating review ai_results of
                Inl e \<Rightarrow> Inl e
              | Inr entry \<Rightarrow>
                  (case save_data (data_file st) entry of
                     Inl e \<Rightarrow> Inl e
                   | Inr f' \<Rightarrow>
                       Inr \<lparr>data_file = f',
                            screen = screen st @ shown
                              @ [StSuccess (lit ''Thank you!''), StInfo (ai_response_of entry)]\<rparr>)))
      else Inr st)"

section \<open>Vocabulary of the properties\<close>

text \<open>A service that answers every prompt with the text \<open>t\<close>.\<close>

definition respond :: "pystr \<Rightarrow> pystr \<Rightarrow> exn + pystr" where
  "respond t p = Inr t"

text \<open>
  A dict with exactly the keys \<open>user_response\<close>, \<open>summary\<close> and \<open>action\<close>, each with a
  non-empty string.
\<close>

definition is_triple :: "json \<Rightarrow> bool" where
  "is_triple v =
     (case v of
        JObject [(k1, JString a), (k2, JString b), (k3, JString c)] \<Rightarrow>
          k1 = lit ''user_response'' \<and> k2 = lit ''summary'' \<and> k3 = lit ''action''
          \<and> a \<noteq> [] \<and> b \<noteq> [] \<and> c \<noteq> []
      | _ \<Rightarrow> False)"

text \<open>A record of the store: a dict with the six keys, in the order of \<open>entry\<close>.\<close>

definition six_fields :: "json \<Rightarrow> bool" where
  "six_fields e =
     (case e of
        JObject kvs \<Rightarrow>
          map fst kvs = [lit ''timestamp'', lit ''rating'', lit ''review'',
                         lit ''ai_response'', lit ''ai_summary'', lit ''ai_action'']
      | _ \<Rightarrow> False)"

text \<open>The value of a dict under a key, if it has the key.\<close>

definition field :: "json \<Rightarrow> pystr \<Rightarrow> json option" where
  "field e k = (case e of JObject kvs \<Rightarrow> map_of kvs k | _ \<Rightarrow> None)"

text \<open>The keys of the analyzer's dict, each with the key of the record that takes its value.\<close>

definition ai_fields :: "(pystr \<times> pystr) list" where
  "ai_fields = [(lit ''user_response'', lit ''ai_response''), (lit ''summary'', lit ''ai_summary''),
                (lit ''action'', lit ''ai_action'')]"

text \<open>A service whose call raises \<open>e\<close>.\<close>

definition failing :: "exn \<Rightarrow> pystr \<Rightarrow> exn + pystr" where
  "failing e p = Inl e"

text \<open>
  Text as a form, a service or a file hands it to the program: Unicode scalar values,
  that is, code points below \<open>0x110000\<close> that are no surrogates.
\<close>

definition valid_text :: "pystr \<Rightarrow> bool" where
  "valid_text t = (\<forall>c\<in>set t. c < 1114112 \<and> \<not> is_high_surrogate c \<and> \<not> is_low_surrogate c)"

text \<open>A service that answers with such text, and a file that holds such text.\<close>

definition service_ok :: "(pystr \<Rightarrow> exn + pystr) \<Rightarrow> bool" where
  "service_ok generate_content = (\<forall>p t. generate_content p = Inr t \<longrightarrow> valid_text t)"

definition valid_file :: "file_state \<Rightarrow> bool" where
  "valid_file f =
     (case f of None \<Rightarrow> True | Some (Text t) \<Rightarrow> valid_text t | Some Undecodable \<Rightarrow> False)"

text \<open>
  The strings that survive \<open>json.dump\<close> and \<open>json.load\<close>: code points below \<open>0x110000\<close>,
  and no high surrogate directly before a low surrogate (the two escapes that
  \<open>json.dump\<close> writes for them are read back as one code point).
\<close>

fun wf_str :: "pystr \<Rightarrow> bool" where
  "wf_str [] = True"
| "wf_str [c] = (c < 1114112)"
| "wf_str (c # d # s) =
     (c < 1114112 \<and> \<not> (is_high_surrogate c \<and> is_low_surrogate d) \<and> wf_str (d # s))"

text \<open>A float is kept as its literal: text that \<open>scan_once\<close> reads as this float.\<close>

definition wf_float :: "pystr \<Rightarrow> bool" where
  "wf_float l = (valid_text l \<and> scan_once 1 l = Some (JFloat l, []))"

text \<open>
  The values that Python holds as such: a dict has no key twice, and strings and floats
  are as above.
\<close>

fun wf_json :: "json \<Rightarrow> bool" where
  "wf_json JNull = True"
| "wf_json (JBool b) = True"
| "wf_json (JInt i) = True"
| "wf_json (JFloat l) = wf_float l"
| "wf_json (JString s) = wf_str s"
| "wf_json (JArray vs) = (\<forall>v\<in>set vs. wf_json v)"
| "wf_json (JObject kvs) =
     (distinct (map fst kvs) \<and> (\<forall>kv\<in>set kvs. wf_str (fst kv) \<and> wf_json (snd kv)))"

text \<open>
  The states of the file that the form produces from a store that does not exist yet,
  with a service, a clock and reviews that deliver text.
\<close>

inductive reachable :: "file_state \<Rightarrow> bool" where
  start: "reachable None"
| submit: "reachable f \<Longrightarrow> service_ok generate_content \<Longrightarrow> valid_text now \<Longrightarrow>
    valid_text review \<Longrightarrow>
    feedback_form generate_content now submitted rating review \<lparr>data_file = f, screen = scr\<rparr>
      = Inr st' \<Longrightarrow>
    reachable (data_file st')"

text \<open>The record of a submission that met an outage of the service.\<close>

definition outage_record :: json where
  "outage_record = JObject
     [(lit ''timestamp'', JString (lit ''2025-01-01 10:00:00'')), (lit ''rating'', JInt 1),
      (lit ''review'', JString (lit ''bad'')),
      (lit ''ai_response'', JString (lit ''Thank you for sharing your experience. We are currently experiencing a system issue and will address your feedback shortly.'')),
      (lit ''ai_summary'', JString (lit ''System/API Error'')),
      (lit ''ai_action'', JString (lit ''Check system logs and API usage.''))]"

text \<open>
  Vocabulary of the proofs: what may follow an encoded value (a comma, a line feed or
  the end), what an encoded value starts with, what may follow a run of digits, and
  one encoded item of a dict.
\<close>

definition safe_rest :: "pystr \<Rightarrow> bool" where
  "safe_rest r = (case r of [] \<Rightarrow> True | c # cs \<Rightarrow> c = COMMA \<or> c = 10)"

definition first_ok :: "nat \<Rightarrow> bool" where
  "first_ok c = (\<not> is_json_ws c \<and> c \<noteq> RBRACKET \<and> c \<noteq> RBRACE \<and> c \<noteq> 65279)"

definition stop :: "pystr \<Rightarrow> bool" where
  "stop x = (case x of [] \<Rightarrow> True | c # _ \<Rightarrow> \<not> is_digit c \<and> c \<noteq> 46)"

definition nondigit :: "pystr \<Rightarrow> bool" where
  "nondigit x = (case x of [] \<Rightarrow> True | c # _ \<Rightarrow> \<not> is_digit c)"

abbreviation encode_item :: "nat \<Rightarrow> pystr \<times> json \<Rightarrow> pystr" where
  "encode_item l kv \<equiv> encode_string (fst kv) @ [COLON, 32] @ encode l (snd kv)"

section \<open>Evaluation on concrete texts\<close>

text \<open>
  The equations of the scanner for a bound given as a numeral, and the definitions that
  the simplifier unfolds to run the model on a concrete text.
\<close>

lemmas scan_once_num = scan_once.simps(2,3)[of "pred_numeral k" for k, folded numeral_eq_Suc]
lemmas parse_array_num = parse_array.simps(2)[of "pred_numeral k" for k, folded numeral_eq_Suc]
lemmas parse_object_num = parse_object.simps(2)[of "pred_numeral k" for k, folded numeral_eq_Suc]

lemmas eval_loads = json_loads_def lit_def starts_with_def skip_ws_def is_json_ws_def
  scan_once_num parse_array_num parse_object_num prepend_def simple_escape_def
  match_number_def number_tail_def fraction_def exponent_def is_digit_def digits_value_def
  decode_uXXXX_def hex_val_def is_high_surrogate_def is_low_surrogate_def join_surrogates_def
  Let_def

lemmas eval_search = strip_def is_space_def match_fenced_def match_braces_def brace_group_def
  fence_close_def group_or_def lit_def starts_with_def

section \<open>The analyzer\<close>

text \<open>\<open>json.loads\<close> raises nothing but \<open>JSONDecodeError\<close>.\<close>

lemma json_loads_error: "json_loads t = Inl e \<Longrightarrow> e = JSONDecodeError"
  by (auto simp: json_loads_def split: if_splits option.splits)

lemma garbage_search: \<open>re_search (strip (lit ''I cannot help with that.'')) = None\<close>
  by (simp add: eval_search)

lemma garbage_loads: \<open>json_loads (strip (lit ''I cannot help with that.'')) = Inl JSONDecodeError\<close>
  by (simp add: eval_search eval_loads)

text \<open>
  C1. Whatever the rating and the review: when the call of the service raises, or when
  the response holds no payload for the regular expression and is not JSON as a whole,
  \<open>analyze_feedback\<close> returns the fixed fallback dict: the acknowledgment that names a
  system issue, the summary \<open>System/API Error\<close> and the action
  \<open>Check system logs and API usage.\<close> Being the value of a total function, the call
  does not raise.
\<close>

theorem analyze_feedback_fallback:
  assumes "generate_content (prompt rating review) = Inl e
    \<or> (\<exists>t. generate_content (prompt rating review) = Inr t
          \<and> re_search (strip t) = None \<and> json_loads (strip t) = Inl JSONDecodeError)"
  shows "fst (analyze_feedback generate_content rating review) =
    JObject
     [(lit ''user_response'', JString (lit ''Thank you for sharing your experience. We are currently experiencing a system issue and will address your feedback shortly.'')),
      (lit ''summary'', JString (lit ''System/API Error'')),
      (lit ''action'', JString (lit ''Check system logs and API usage.''))]"
  using assms by (auto simp: analyze_feedback_def analyze_try_def fallback_def)

text \<open>The response \<open>I cannot help with that.\<close> is such a text.\<close>

theorem analyze_feedback_fallback_witness:
  \<open>fst (analyze_feedback (respond (lit ''I cannot help with that.'')) 3 (lit ''slow'')) =
    JObject
     [(lit ''user_response'', JString (lit ''Thank you for sharing your experience. We are currently experiencing a system issue and will address your feedback shortly.'')),
      (lit ''summary'', JString (lit ''System/API Error'')),
      (lit ''action'', JString (lit ''Check system logs and API usage.''))]\<close>
proof -
  have "\<exists>t. respond (lit ''I cannot help with that.'') (prompt 3 (lit ''slow'')) = Inr t
          \<and> re_search (strip t) = None \<and> json_loads (strip t) = Inl JSONDecodeError"
    using garbage_search garbage_loads by (simp add: respond_def)
  then show ?thesis by (intro analyze_feedback_fallback disjI2)
qed

text \<open>
  C2, as stated, asks for three non-empty string fields whatever the service answers.
  The response \<^verbatim>\<open>{"summary": ""}\<close> is a JSON object; it is returned as it is, with one
  field, which is empty.
\<close>

theorem analyze_feedback_shape_counterexample:
  \<open>\<not> is_triple (fst (analyze_feedback (respond (lit ''{"summary": ""}'')) 5 (lit ''good'')))\<close>
  by (simp add: analyze_feedback_def analyze_try_def respond_def eval_search eval_loads is_triple_def)

lemma is_triple_fallback: "is_triple fallback"
  by (simp add: is_triple_def fallback_def lit_def)

text \<open>The group of a match starts with an opening brace.\<close>

lemma brace_group_head: "brace_group k t = Some g \<Longrightarrow> \<exists>cs. g = LBRACE # cs"
  by (auto simp: brace_group_def split: list.splits if_splits)

lemma re_search_group:
  "re_search t = Some (g1, g2) \<Longrightarrow> \<exists>cs. group_or g1 g2 = Some (LBRACE # cs)"
proof (induction t)
  case Nil
  then show ?case by simp
next
  case (Cons c t)
  show ?case
  proof (cases "match_fenced (c # t)")
    case (Some g)
    then obtain cs where g: "g = LBRACE # cs"
      by (auto simp: match_fenced_def split: if_splits dest: brace_group_head)
    from Some Cons.prems have "g1 = Some g" "g2 = None" by simp_all
    with g show ?thesis by (simp add: group_or_def)
  next
    case None
    show ?thesis
    proof (cases "match_braces (c # t)")
      case (Some g)
      then obtain cs where g: "g = LBRACE # cs"
        by (auto simp: match_braces_def dest: brace_group_head)
      from None Some Cons.prems have "g1 = None" "g2 = Some g" by simp_all
      with g show ?thesis by (simp add: group_or_def)
    next
      case N: None
      with None Cons.prems have "re_search t = Some (g1, g2)" by simp
      then show ?thesis by (rule Cons.IH)
    qed
  qed
qed

text \<open>Text that starts with an opening brace is read as a dict, if it is JSON.\<close>

lemma parse_object_dict: "parse_object n s acc = Some (v, r) \<Longrightarrow> \<exists>kvs. v = JObject kvs"
proof (induction n arbitrary: s acc)
  case 0
  then show ?case by simp
next
  case (Suc n)
  from Suc.prems obtain s1 where s: "s = DQUOTE # s1"
    by (cases s) (auto split: if_splits)
  from Suc.prems s obtain key r0 where ss: "scanstring s1 = Some (key, r0)"
    by (auto split: option.splits)
  from Suc.prems s ss obtain r1 where sk1: "skip_ws r0 = COLON # r1"
    by (cases "skip_ws r0") (auto split: if_splits)
  from Suc.prems s ss sk1 obtain v0 r2 where s0: "scan_once n (skip_ws r1) = Some (v0, r2)"
    by (auto split: option.splits)
  from Suc.prems s ss sk1 s0 obtain d r3 where sk3: "skip_ws r2 = d # r3"
    by (cases "skip_ws r2") auto
  show ?case
  proof (cases "d = RBRACE")
    case True
    with Suc.prems s ss sk1 s0 sk3 show ?thesis by auto
  next
    case False
    with Suc.prems s ss sk1 s0 sk3
    have "parse_object n (skip_ws r3) (dict_set acc key v0) = Some (v, r)"
      by (auto split: if_splits)
    then show ?thesis by (rule Suc.IH)
  qed
qed

lemma json_loads_brace: "json_loads (LBRACE # cs) = Inr v \<Longrightarrow> \<exists>kvs. v = JObject kvs"
proof -
  assume l: "json_loads (LBRACE # cs) = Inr v"
  have sk: "skip_ws (LBRACE # cs) = LBRACE # cs" by (simp add: skip_ws_def is_json_ws_def)
  obtain n where n: "2 * length (LBRACE # cs) + 2 = Suc n" by simp
  from l obtain r where sc: "scan_once (Suc n) (LBRACE # cs) = Some (v, r)"
    unfolding json_loads_def sk n by (auto split: if_splits option.splits)
  show ?thesis
  proof (cases "skip_ws cs")
    case Nil
    with sc show ?thesis by simp
  next
    case (Cons d r0)
    show ?thesis
    proof (cases "d = RBRACE")
      case True
      with sc Cons show ?thesis by auto
    next
      case False
      with sc Cons have "parse_object n (d # r0) [] = Some (v, r)" by simp
      then show ?thesis by (rule parse_object_dict)
    qed
  qed
qed

text \<open>
  C2, amended. The fallback has the three non-empty string fields. When the call of the
  service raises, \<open>analyze_feedback\<close> returns the fallback. When the stripped response
  holds a payload for the regular expression, it returns the fallback if the payload is
  not JSON, and otherwise the dict that \<open>json.loads\<close> reads from the payload, with the
  fields of the payload: they may be fewer than three, and they may be empty.
\<close>

theorem analyze_feedback_result:
  "is_triple fallback
   \<and> (generate_content (prompt rating review) = Inl e \<longrightarrow>
        fst (analyze_feedback generate_content rating review) = fallback)
   \<and> (generate_content (prompt rating review) = Inr t \<and> re_search (strip t) = Some (g1, g2) \<longrightarrow>
        (\<exists>js. group_or g1 g2 = Some js
           \<and> (case json_loads js of
                 Inl x \<Rightarrow> fst (analyze_feedback generate_content rating review) = fallback
               | Inr v \<Rightarrow> fst (analyze_feedback generate_content rating review) = v
                   \<and> (\<exists>kvs. v = JObject kvs))))"
proof (intro conjI impI)
  show "is_triple fallback" by (rule is_triple_fallback)
next
  assume "generate_content (prompt rating review) = Inl e"
  then show "fst (analyze_feedback generate_content rating review) = fallback"
    by (simp add: analyze_feedback_def analyze_try_def)
next
  assume a: "generate_content (prompt rating review) = Inr t \<and> re_search (strip t) = Some (g1, g2)"
  from re_search_group [of "strip t" g1 g2] a obtain cs where
    g: "group_or g1 g2 = Some (LBRACE # cs)" by blast
  have "case json_loads (LBRACE # cs) of
      Inl x \<Rightarrow> fst (analyze_feedback generate_content rating review) = fallback
    | Inr v \<Rightarrow> fst (analyze_feedback generate_content rating review) = v
        \<and> (\<exists>kvs. v = JObject kvs)"
  proof (cases "json_loads (LBRACE # cs)")
    case (Inl x)
    with a g show ?thesis by (simp add: analyze_feedback_def analyze_try_def)
  next
    case (Inr v)
    with a g json_loads_brace [OF Inr] show ?thesis
      by (simp add: analyze_feedback_def analyze_try_def)
  qed
  with g show "\<exists>js. group_or g1 g2 = Some js
           \<and> (case json_loads js of
                 Inl x \<Rightarrow> fst (analyze_feedback generate_content rating review) = fallback
               | Inr v \<Rightarrow> fst (analyze_feedback generate_content rating review) = v
                   \<and> (\<exists>kvs. v = JObject kvs))"
    by blast
qed

text \<open>
  A service that raises, and the response \<^verbatim>\<open>{"summary": ""}\<close>: the fallback, and the
  dict with the one empty field.
\<close>

theorem analyze_feedback_result_witness:
  \<open>is_triple fallback
   \<and> fst (analyze_feedback (failing (ServiceError (lit ''timeout''))) 5 (lit ''good'')) = fallback
   \<and> fst (analyze_feedback (respond (lit ''{"summary": ""}'')) 5 (lit ''good''))
       = JObject [(lit ''summary'', JString [])]\<close>
proof -
  note th1 = analyze_feedback_result [of "failing (ServiceError (lit ''timeout''))" 5 "lit ''good''"
      "ServiceError (lit ''timeout'')"]
  note th2 = analyze_feedback_result [of \<open>respond (lit ''{"summary": ""}'')\<close> 5 "lit ''good''"
      _ \<open>lit ''{"summary": ""}''\<close> None \<open>Some (lit ''{"summary": ""}'')\<close>]
  have 1: "is_triple fallback" using th1 by blast
  have "failing (ServiceError (lit ''timeout'')) (prompt 5 (lit ''good''))
      = Inl (ServiceError (lit ''timeout''))"
    by (simp add: failing_def)
  with th1 have 2:
    "fst (analyze_feedback (failing (ServiceError (lit ''timeout''))) 5 (lit ''good'')) = fallback"
    by blast
  have r: \<open>respond (lit ''{"summary": ""}'') (prompt 5 (lit ''good'')) = Inr (lit ''{"summary": ""}'')\<close>
    by (simp add: respond_def)
  have m: \<open>re_search (strip (lit ''{"summary": ""}'')) = Some (None, Some (lit ''{"summary": ""}''))\<close>
    by (simp add: eval_search)
  have l: \<open>json_loads (lit ''{"summary": ""}'') = Inr (JObject [(lit ''summary'', JString [])])\<close>
    by (simp add: eval_loads)
  from th2 r m obtain js where
    js: \<open>group_or None (Some (lit ''{"summary": ""}'')) = Some js\<close>
    \<open>case json_loads js of
       Inl x \<Rightarrow> fst (analyze_feedback (respond (lit ''{"summary": ""}'')) 5 (lit ''good'')) = fallback
     | Inr v \<Rightarrow> fst (analyze_feedback (respond (lit ''{"summary": ""}'')) 5 (lit ''good'')) = v
         \<and> (\<exists>kvs. v = JObject kvs)\<close>
    by blast
  from js(1) have \<open>js = lit ''{"summary": ""}''\<close> by (simp add: group_or_def)
  with js(2) l have 3: \<open>fst (analyze_feedback (respond (lit ''{"summary": ""}'')) 5 (lit ''good''))
       = JObject [(lit ''summary'', JString [])]\<close>
    by simp
  from 1 2 3 show ?thesis by blast
qed

section \<open>The submission\<close>

text \<open>
  C3 says that a submission with a non-empty review never ends in an error. The
  response \<open>null\<close> is JSON, so \<open>analyze_feedback\<close> returns \<open>None\<close>; \<open>None\<close> has no \<open>get\<close>,
  and the handler ends with \<open>AttributeError\<close> before anything is stored or shown.
\<close>

theorem feedback_form_null_response:
  \<open>feedback_form (respond (lit ''null'')) (lit ''2025-01-01 10:00:00'') True 5 (lit ''good'')
     \<lparr>data_file = None, screen = []\<rparr> = Inl AttributeError\<close>
  by (simp add: feedback_form_def analyze_feedback_def analyze_try_def respond_def
      eval_search eval_loads make_entry_def py_get_def)

section \<open>What the regular expression finds\<close>



lemma dot_star_close_Some:
  "dot_star_close k cs = Some g \<Longrightarrow> \<exists>b c. cs = b @ RBRACE # c \<and> k c \<and> g = b @ [RBRACE]"
proof (induction cs arbitrary: g)
  case Nil
  then show ?case by simp
next
  case (Cons x cs)
  show ?case
  proof (cases "dot_star_close k cs")
    case None
    with Cons.prems have "x = RBRACE" "k cs" "g = [x]"
      by (auto split: if_splits)
    then have "x # cs = [] @ RBRACE # cs \<and> k cs \<and> g = [] @ [RBRACE]" by simp
    then show ?thesis by blast
  next
    case (Some h)
    with Cons.IH obtain b c where bc: "cs = b @ RBRACE # c" "k c" "h = b @ [RBRACE]" by blast
    from Some Cons.prems have "g = x # h" by simp
    with bc have "x # cs = (x # b) @ RBRACE # c \<and> k c \<and> g = (x # b) @ [RBRACE]" by simp
    then show ?thesis by blast
  qed
qed

















text \<open>
  C5. The object with the values \<open>A\<close>, \<open>B\<close> and \<open>C\<close>, once in a fenced block tagged
  \<open>json\<close> and once as the whole response, is parsed to the same dict, for every rating
  and review.
\<close>

theorem parse_fenced_and_plain:
  \<open>fst (analyze_feedback
      (respond (lit ''```json\<newline>{"user_response":"A","summary":"B","action":"C"}\<newline>```''))
      rating review)
     = JObject [(lit ''user_response'', JString (lit ''A'')), (lit ''summary'', JString (lit ''B'')),
                (lit ''action'', JString (lit ''C''))]
   \<and> fst (analyze_feedback
      (respond (lit ''{"user_response":"A","summary":"B","action":"C"}'')) rating review)
     = JObject [(lit ''user_response'', JString (lit ''A'')), (lit ''summary'', JString (lit ''B'')),
                (lit ''action'', JString (lit ''C''))]\<close>
  by (simp add: analyze_feedback_def analyze_try_def respond_def eval_search eval_loads)

lemma py_get_dict: "py_get (JObject kvs) k d = Inr (case map_of kvs k of Some v \<Rightarrow> v | None \<Rightarrow> d)"
  by (simp add: py_get_def)

lemma make_entry_dict:
  "\<exists>r s a. make_entry now rating review (JObject kvs) =
     Inr (JObject [(lit ''timestamp'', JString now), (lit ''rating'', JInt rating),
                   (lit ''review'', JString review), (lit ''ai_response'', r),
                   (lit ''ai_summary'', s), (lit ''ai_action'', a)])
     \<and> r = (case map_of kvs (lit ''user_response'') of Some v \<Rightarrow> v | None \<Rightarrow> JString [])
     \<and> s = (case map_of kvs (lit ''summary'') of Some v \<Rightarrow> v | None \<Rightarrow> JString [])
     \<and> a = (case map_of kvs (lit ''action'') of Some v \<Rightarrow> v | None \<Rightarrow> JString [])"
  by (simp add: make_entry_def py_get_dict)

lemma save_data_list:
  "load_data f = Inr (JArray s) \<Longrightarrow> save_data f e = Inr (Some (Text (json_dumps (JArray (s @ [e])))))"
  by (simp add: save_data_def)

text \<open>
  C6. When the dict that \<open>analyze_feedback\<close> returns lacks one of the keys
  \<open>user_response\<close>, \<open>summary\<close> and \<open>action\<close>, and the store holds a list, the submission
  succeeds. The record that is appended to the list and written has the timestamp, the
  rating and the review of the submission and, for each of the three keys, the value
  of the dict, or the empty string where the dict has none; so the field for the
  missing key is the empty string. The page shows what \<open>analyze_feedback\<close> reported,
  the thanks and the response.
\<close>

theorem missing_key_tolerated:
  assumes "fst (analyze_feedback generate_content rating review) = JObject kvs"
    and "(k, k') \<in> set ai_fields" and "map_of kvs k = None" and "review \<noteq> []"
    and "load_data (data_file st) = Inr (JArray s)"
  shows
    "(let entry = JObject
        [(lit ''timestamp'', JString now), (lit ''rating'', JInt rating),
         (lit ''review'', JString review),
         (lit ''ai_response'',
            case map_of kvs (lit ''user_response'') of Some v \<Rightarrow> v | None \<Rightarrow> JString []),
         (lit ''ai_summary'',
            case map_of kvs (lit ''summary'') of Some v \<Rightarrow> v | None \<Rightarrow> JString []),
         (lit ''ai_action'',
            case map_of kvs (lit ''action'') of Some v \<Rightarrow> v | None \<Rightarrow> JString [])]
      in feedback_form generate_content now True rating review st =
           Inr \<lparr>data_file = Some (Text (json_dumps (JArray (s @ [entry])))),
                screen = screen st @ snd (analyze_feedback generate_content rating review)
                  @ [StSuccess (lit ''Thank you!''),
                     StInfo (case map_of kvs (lit ''user_response'') of
                               Some v \<Rightarrow> v | None \<Rightarrow> JString [])]\<rparr>
         \<and> six_fields entry \<and> field entry k' = Some (JString []))"
proof -
  let ?r = "case map_of kvs (lit ''user_response'') of Some v \<Rightarrow> v | None \<Rightarrow> JString []"
  let ?sm = "case map_of kvs (lit ''summary'') of Some v \<Rightarrow> v | None \<Rightarrow> JString []"
  let ?a = "case map_of kvs (lit ''action'') of Some v \<Rightarrow> v | None \<Rightarrow> JString []"
  let ?entry = "JObject [(lit ''timestamp'', JString now), (lit ''rating'', JInt rating),
                   (lit ''review'', JString review), (lit ''ai_response'', ?r),
                   (lit ''ai_summary'', ?sm), (lit ''ai_action'', ?a)]"
  have e: "make_entry now rating review (JObject kvs) = Inr ?entry"
    by (simp add: make_entry_def py_get_dict)
  have six: "six_fields ?entry" by (simp add: six_fields_def)
  have fld: "field ?entry k' = Some (JString [])"
    using assms(2,3) by (auto simp: ai_fields_def field_def lit_def)
  have ar: "ai_response_of ?entry = ?r" by (simp add: ai_response_of_def lit_def)
  obtain shown where af: "analyze_feedback generate_content rating review = (JObject kvs, shown)"
    using assms(1) by (cases "analyze_feedback generate_content rating review") auto
  have "feedback_form generate_content now True rating review st =
      Inr \<lparr>data_file = Some (Text (json_dumps (JArray (s @ [?entry])))),
           screen = screen st @ shown @ [StSuccess (lit ''Thank you!''), StInfo ?r]\<rparr>"
    using assms(4) af e save_data_list [OF assms(5)] ar by (simp add: feedback_form_def)
  with six fld af show ?thesis by (simp add: Let_def)
qed

text \<open>A response without \<open>user_response\<close>, submitted when the file does not exist yet.\<close>

theorem missing_key_tolerated_witness:
  \<open>feedback_form (respond (lit ''{"summary": "late", "action": "call"}''))
        (lit ''2025-01-01 10:00:00'') True 2 (lit ''slow'') \<lparr>data_file = None, screen = []\<rparr>
     = Inr \<lparr>data_file = Some (Text (json_dumps (JArray
               [JObject [(lit ''timestamp'', JString (lit ''2025-01-01 10:00:00'')),
                         (lit ''rating'', JInt 2), (lit ''review'', JString (lit ''slow'')),
                         (lit ''ai_response'', JString []),
                         (lit ''ai_summary'', JString (lit ''late'')),
                         (lit ''ai_action'', JString (lit ''call''))]]))),
            screen = [StSuccess (lit ''Thank you!''), StInfo (JString [])]\<rparr>\<close>
proof -
  have 0: \<open>analyze_feedback (respond (lit ''{"summary": "late", "action": "call"}'')) 2 (lit ''slow'')
      = (JObject [(lit ''summary'', JString (lit ''late'')), (lit ''action'', JString (lit ''call''))], [])\<close>
    by (simp add: analyze_feedback_def analyze_try_def respond_def eval_search eval_loads)
  then have 1: \<open>fst (analyze_feedback (respond (lit ''{"summary": "late", "action": "call"}'')) 2 (lit ''slow''))
      = JObject [(lit ''summary'', JString (lit ''late'')), (lit ''action'', JString (lit ''call''))]\<close>
    by simp
  have 2: "(lit ''user_response'', lit ''ai_response'') \<in> set ai_fields"
    by (simp add: ai_fields_def)
  have 3: "map_of [(lit ''summary'', JString (lit ''late'')), (lit ''action'', JString (lit ''call''))]
      (lit ''user_response'') = None"
    by (simp add: lit_def)
  have 4: "lit ''slow'' \<noteq> []" by (simp add: lit_def)
  have 5: "load_data (data_file \<lparr>data_file = None, screen = []\<rparr>) = Inr (JArray [])"
    by (simp add: load_data_def)
  have m: "map_of [(lit ''summary'', JString (lit ''late'')), (lit ''action'', JString (lit ''call''))]
      (lit ''summary'') = Some (JString (lit ''late''))"
    "map_of [(lit ''summary'', JString (lit ''late'')), (lit ''action'', JString (lit ''call''))]
      (lit ''action'') = Some (JString (lit ''call''))"
    by (simp_all add: lit_def)
  from missing_key_tolerated [OF 1 2 3 4 5, of "lit ''2025-01-01 10:00:00''"]
  show ?thesis unfolding Let_def 0 3 m by simp
qed

section \<open>The store\<close>

text \<open>
  C7 says that \<open>load_data\<close> never raises and that a corrupt file reads as the empty
  list. A file whose bytes are no text is such a file: \<open>f.read()\<close> raises
  \<open>UnicodeDecodeError\<close> inside \<open>json.load\<close>, the handler takes \<open>JSONDecodeError\<close> alone,
  and the exception leaves \<open>load_data\<close>.
\<close>

theorem load_data_undecodable: "load_data (Some Undecodable) = Inl UnicodeDecodeError"
  by (simp add: load_data_def json_load_def)

text \<open>
  What holds of C7: the empty list for a file that does not exist and for a file whose
  text is not JSON.
\<close>

lemma load_data_empty:
  "f = None \<or> (\<exists>t. f = Some (Text t) \<and> json_loads t = Inl JSONDecodeError)
   \<Longrightarrow> load_data f = Inr (JArray [])"
  by (auto simp: load_data_def json_load_def)

text \<open>
  C10. When the file exists and its text is not JSON, \<open>save_data\<close> succeeds and the new
  text of the file is the list with the new record alone: what the file held is gone.
\<close>

theorem save_data_over_corrupt:
  assumes "json_loads t = Inl JSONDecodeError"
  shows "save_data (Some (Text t)) r = Inr (Some (Text (json_dumps (JArray [r]))))"
  using assms by (simp add: save_data_def load_data_def json_load_def)

text \<open>A file that was cut off, and a record.\<close>

theorem save_data_over_corrupt_witness:
  \<open>save_data (Some (Text (lit ''[{"rating": 5,''))) (JObject [(lit ''rating'', JInt 1)])
     = Inr (Some (Text (json_dumps (JArray [JObject [(lit ''rating'', JInt 1)]]))))\<close>
proof -
  have "json_loads (lit ''[{\"rating\": 5,'') = Inl JSONDecodeError"
    by (simp add: eval_loads)
  then show ?thesis by (rule save_data_over_corrupt)
qed

section \<open>\<open>json.load\<close> reads back what \<open>json.dump\<close> wrote\<close>

lemma hex_val_hex_digit: "d < 16 \<Longrightarrow> hex_val (hex_digit d) = Some d"
  by (auto simp: hex_val_def hex_digit_def)

lemma hex4_value:
  assumes "n < 65536"
  shows "((n div 4096 mod 16 * 16 + n div 256 mod 16) * 16 + n div 16 mod 16) * 16 + n mod 16
    = (n::nat)"
proof -
  define a where "a = n div 16"
  define b where "b = a div 16"
  define c where "c = b div 16"
  define nm where "nm = n mod 16"
  define am where "am = a mod 16"
  define bm where "bm = b mod 16"
  have d: "n div 16 = a" "n div 256 = b" "n div 4096 = c"
    using div_mult2_eq [of n 16 16] div_mult2_eq [of n 256 16]
    by (simp_all add: a_def b_def c_def)
  have "c < 16" using assms d(3) by simp
  then have 4: "c mod 16 = c" by simp
  have 1: "n = 16 * a + nm" by (simp add: a_def nm_def)
  have 2: "a = 16 * b + am" by (simp add: b_def am_def)
  have 3: "b = 16 * c + bm" by (simp add: c_def bm_def)
  have "((c * 16 + bm) * 16 + am) * 16 + nm = n"
    using 1 2 3 by simp
  then show ?thesis unfolding d 4 by (simp add: nm_def am_def bm_def)
qed

lemma surrogate_bounds:
  "55296 + (x::nat) mod 1024 < 65536" "56320 + (x::nat) mod 1024 < 65536"
  "\<not> is_low_surrogate (55296 + x mod 1024)" "is_high_surrogate (55296 + x mod 1024)"
  "is_low_surrogate (56320 + x mod 1024)"
proof -
  have "x mod 1024 < 1024" by simp
  then show "55296 + x mod 1024 < 65536" "56320 + x mod 1024 < 65536"
    "\<not> is_low_surrogate (55296 + x mod 1024)" "is_high_surrogate (55296 + x mod 1024)"
    "is_low_surrogate (56320 + x mod 1024)"
    unfolding is_low_surrogate_def is_high_surrogate_def by linarith+
qed

lemma decode_hex4: "n < 65536 \<Longrightarrow> decode_uXXXX (hex4 n @ r) = Some n"
  using hex4_value [of n] by (simp add: decode_uXXXX_def hex4_def hex_val_hex_digit)

lemma length_hex4: "length (hex4 n) = 4"
  by (simp add: hex4_def)

lemma drop_hex4:
  "drop 4 (hex4 n @ t) = t" "drop 6 (hex4 n @ t) = drop 2 t"
  "drop 10 (hex4 n @ a # b # hex4 m @ t) = t"
  by (simp_all add: hex4_def)

lemma escape_char_cases:
  obtains (two) e where "escape_char d = [BACKSLASH, e]" "simple_escape e = Some d" "e \<noteq> 117"
  | (one) "escape_char d = [d]" "d \<noteq> BACKSLASH" "d \<noteq> DQUOTE" "32 \<le> d"
  | (uni) "escape_char d = BACKSLASH # 117 # hex4 d" "d < 65536"
  | (pair) "escape_char d = BACKSLASH # 117 # hex4 (55296 + (d - 65536) div 1024 mod 1024)
               @ BACKSLASH # 117 # hex4 (56320 + (d - 65536) mod 1024)" "65536 \<le> d"
proof -
  have "(\<exists>e. escape_char d = [BACKSLASH, e] \<and> simple_escape e = Some d \<and> e \<noteq> 117)
    \<or> (escape_char d = [d] \<and> d \<noteq> BACKSLASH \<and> d \<noteq> DQUOTE \<and> 32 \<le> d)
    \<or> (escape_char d = BACKSLASH # 117 # hex4 d \<and> d < 65536)
    \<or> (escape_char d = BACKSLASH # 117 # hex4 (55296 + (d - 65536) div 1024 mod 1024)
               @ BACKSLASH # 117 # hex4 (56320 + (d - 65536) mod 1024) \<and> 65536 \<le> d)"
    unfolding escape_char_def simple_escape_def by simp
  then show thesis using two one uni pair by blast
qed

lemma escape_head:
  assumes "starts_with [BACKSLASH, 117] (escape_char d @ t)"
  shows "\<exists>u. decode_uXXXX (drop 2 (escape_char d @ t)) = Some u \<and> (is_low_surrogate u \<longrightarrow> u = d)"
proof (cases d rule: escape_char_cases)
  case (two e)
  with assms show ?thesis by (simp add: starts_with_def)
next
  case one
  with assms show ?thesis by (simp add: starts_with_def)
next
  case uni
  then show ?thesis by (simp add: decode_hex4)
next
  case pair
  then show ?thesis by (simp add: decode_hex4 surrogate_bounds)
qed

lemma prepend_Some: "prepend c (Some (s, r)) = Some (c # s, r)"
  by (simp add: prepend_def)

lemma scanstring_escape_char:
  assumes "c < 1114112"
    and "starts_with [BACKSLASH, 117] t \<Longrightarrow>
      \<exists>u. decode_uXXXX (drop 2 t) = Some u \<and> \<not> (is_high_surrogate c \<and> is_low_surrogate u)"
  shows "scanstring (escape_char c @ t) = prepend c (scanstring t)"
proof (cases c rule: escape_char_cases)
  case (two e)
  then show ?thesis by (simp add: simple_escape_def split: if_splits)
next
  case one
  then show ?thesis by simp
next
  case uni
  show ?thesis
  proof (cases "is_high_surrogate c \<and> starts_with [BACKSLASH, 117] t")
    case True
    with assms(2) obtain u where "decode_uXXXX (drop 2 t) = Some u" "\<not> is_low_surrogate u"
      by auto
    with uni True show ?thesis by (simp add: decode_hex4 drop_hex4 length_hex4)
  next
    case False
    with uni show ?thesis by (auto simp add: decode_hex4 drop_hex4 length_hex4)
  qed
next
  case pair
  let ?hi = "55296 + (c - 65536) div 1024 mod 1024"
  let ?lo = "56320 + (c - 65536) mod 1024"
  have "(c - 65536) div 1024 < 1024" using assms(1) by simp
  then have hi: "(c - 65536) div 1024 mod 1024 = (c - 65536) div 1024" by simp
  have "join_surrogates ?hi ?lo = 65536 + ((c - 65536) div 1024 * 1024 + (c - 65536) mod 1024)"
    unfolding hi by (simp add: join_surrogates_def)
  also have "\<dots> = c" using pair(2) by simp
  finally have j: "join_surrogates ?hi ?lo = c" .
  show ?thesis
    using pair(1) j
    by (simp add: decode_hex4 surrogate_bounds drop_hex4 length_hex4) (simp add: starts_with_def)
qed

lemma scanstring_encode:
  "wf_str s \<Longrightarrow> scanstring (concat (map escape_char s) @ DQUOTE # rest) = Some (s, rest)"
proof (induction s rule: wf_str.induct)
  case 1
  then show ?case by simp
next
  case (2 c)
  have "scanstring (escape_char c @ DQUOTE # rest) = prepend c (scanstring (DQUOTE # rest))"
    using 2 by (intro scanstring_escape_char) (simp_all add: starts_with_def)
  then show ?case by (simp add: prepend_def)
next
  case (3 c d s)
  let ?t = "escape_char d @ concat (map escape_char s) @ DQUOTE # rest"
  have "scanstring (escape_char c @ ?t) = prepend c (scanstring ?t)"
  proof (rule scanstring_escape_char)
    show "c < 1114112" using 3 by simp
    assume "starts_with [BACKSLASH, 117] ?t"
    from escape_head [OF this] obtain u where
      u: "decode_uXXXX (drop 2 ?t) = Some u" "is_low_surrogate u \<longrightarrow> u = d"
      by blast
    with 3 show "\<exists>u. decode_uXXXX (drop 2 ?t) = Some u
        \<and> \<not> (is_high_surrogate c \<and> is_low_surrogate u)"
      by auto
  qed
  with 3 show ?case by (simp add: prepend_def)
qed

lemma scanstring_encode_string:
  "wf_str s \<Longrightarrow> scan_once (Suc n) (encode_string s @ rest) = Some (JString s, rest)"
  by (simp add: encode_string_def scanstring_encode)

lemma digits_value_snoc: "digits_value (ds @ [d]) = 10 * digits_value ds + (d - 48)"
  by (simp add: digits_value_def)

lemma nat_digits_value: "digits_value (nat_digits n) = n"
proof (induction n rule: nat_digits.induct)
  case (1 n)
  show ?case
  proof (cases "n < 10")
    case True
    then show ?thesis by (subst nat_digits.simps) (simp add: digits_value_def)
  next
    case False
    with 1 show ?thesis by (subst nat_digits.simps) (simp add: digits_value_snoc)
  qed
qed

lemma nat_digits_digits: "\<forall>c\<in>set (nat_digits n). is_digit c"
proof (induction n rule: nat_digits.induct)
  case (1 n)
  show ?case
  proof (cases "n < 10")
    case True
    then show ?thesis by (subst nat_digits.simps) (simp add: is_digit_def)
  next
    case False
    have "n mod 10 < 10" by simp
    then have "is_digit (48 + n mod 10)" unfolding is_digit_def by linarith
    with False 1 show ?thesis by (subst nat_digits.simps) simp
  qed
qed

lemma nat_digits_hd:
  "\<exists>d ds. nat_digits n = d # ds \<and> is_digit d \<and> (d = 48 \<longrightarrow> ds = [] \<and> n = 0)"
proof (induction n rule: nat_digits.induct)
  case (1 n)
  show ?case
  proof (cases "n < 10")
    case True
    then show ?thesis by (subst nat_digits.simps) (simp add: is_digit_def)
  next
    case False
    with 1 obtain d ds where
      d: "nat_digits (n div 10) = d # ds" "is_digit d" "d = 48 \<longrightarrow> ds = [] \<and> n div 10 = 0"
      by blast
    from False have "n div 10 \<noteq> 0" by simp
    with d have "d \<noteq> 48" by blast
    with False d show ?thesis by (subst nat_digits.simps) simp
  qed
qed

lemma takeWhile_digits_rest:
  "\<forall>c\<in>set ds. is_digit c \<Longrightarrow> safe_rest r \<Longrightarrow>
   takeWhile is_digit (ds @ r) = ds \<and> dropWhile is_digit (ds @ r) = r"
  by (induction ds) (auto simp: safe_rest_def is_digit_def split: list.splits)

lemma fraction_safe: "safe_rest r \<Longrightarrow> fraction r = ([], r)"
  by (auto simp: fraction_def safe_rest_def is_digit_def split: list.splits)

lemma exponent_safe: "safe_rest r \<Longrightarrow> exponent r = ([], r)"
  by (auto simp: exponent_def safe_rest_def split: list.splits)

lemma number_tail_safe:
  "safe_rest r \<Longrightarrow> number_tail neg ds r
     = Some (JInt (if neg then - int (digits_value ds) else int (digits_value ds)), r)"
  by (simp add: number_tail_def fraction_safe exponent_safe)

lemma match_number_digits:
  assumes "safe_rest r"
  shows "match_number (nat_digits n @ r) = Some (JInt (int n), r)"
proof -
  obtain d ds where d: "nat_digits n = d # ds" "is_digit d" "d = 48 \<longrightarrow> ds = [] \<and> n = 0"
    using nat_digits_hd by blast
  have all: "\<forall>c\<in>set ds. is_digit c" using nat_digits_digits [of n] d(1) by simp
  have v: "digits_value (d # ds) = n" using nat_digits_value [of n] d(1) by simp
  have nm: "d \<noteq> MINUS" using d(2) by (auto simp: is_digit_def)
  show ?thesis
  proof (cases "d = 48")
    case True
    with d v assms show ?thesis by (simp add: match_number_def number_tail_safe)
  next
    case False
    then have "49 \<le> d \<and> d \<le> 57" using d(2) by (auto simp: is_digit_def)
    with False nm d(1) v assms takeWhile_digits_rest [OF all assms]
    show ?thesis by (simp add: match_number_def number_tail_safe)
  qed
qed

lemma match_number_neg_digits:
  assumes "safe_rest r" "0 < n"
  shows "match_number (MINUS # nat_digits n @ r) = Some (JInt (- int n), r)"
proof -
  obtain d ds where d: "nat_digits n = d # ds" "is_digit d" "d = 48 \<longrightarrow> ds = [] \<and> n = 0"
    using nat_digits_hd by blast
  have all: "\<forall>c\<in>set ds. is_digit c" using nat_digits_digits [of n] d(1) by simp
  have v: "digits_value (d # ds) = n" using nat_digits_value [of n] d(1) by simp
  have "d \<noteq> 48" using d(3) assms(2) by auto
  then have "49 \<le> d \<and> d \<le> 57" using d(2) by (auto simp: is_digit_def)
  with \<open>d \<noteq> 48\<close> d(1) v assms takeWhile_digits_rest [OF all assms(1)]
  show ?thesis by (simp add: match_number_def number_tail_safe)
qed

lemma scan_once_int:
  assumes "safe_rest r"
  shows "scan_once (Suc n) (int_str i @ r) = Some (JInt i, r)"
proof (cases "i < 0")
  case True
  obtain d ds where d: "nat_digits (nat (- i)) = d # ds" "is_digit d"
    using nat_digits_hd by blast
  have "match_number (MINUS # nat_digits (nat (- i)) @ r) = Some (JInt (- int (nat (- i))), r)"
    using True assms by (intro match_number_neg_digits) simp_all
  with True d show ?thesis
    by (simp add: int_str_def starts_with_def lit_def is_digit_def)
next
  case False
  obtain d ds where d: "nat_digits (nat i) = d # ds" "is_digit d"
    using nat_digits_hd by blast
  have "match_number (nat_digits (nat i) @ r) = Some (JInt (int (nat i)), r)"
    using assms by (rule match_number_digits)
  with False d show ?thesis
    by (auto simp add: int_str_def starts_with_def lit_def is_digit_def)
qed

lemma digits_append:
  "safe_rest r \<Longrightarrow> takeWhile is_digit (s @ r) = takeWhile is_digit s
      \<and> dropWhile is_digit (s @ r) = dropWhile is_digit s @ r"
  by (induction s) (auto simp: safe_rest_def is_digit_def split: list.splits)

lemma fraction_append:
  assumes "safe_rest r"
  shows "fraction (s @ r) = (fst (fraction s), snd (fraction s) @ r)"
proof (cases s)
  case Nil
  with assms show ?thesis by (simp add: fraction_safe) (simp add: fraction_def)
next
  case (Cons c s1)
  show ?thesis
  proof (cases s1)
    case Nil
    with Cons assms show ?thesis
      by (auto simp: fraction_def safe_rest_def is_digit_def split: list.splits)
  next
    case (Cons d ds)
    with \<open>s = c # s1\<close> digits_append [OF assms, of ds] show ?thesis
      by (simp add: fraction_def)
  qed
qed

lemma exponent_append:
  assumes "safe_rest r"
  shows "exponent (s @ r) = (fst (exponent s), snd (exponent s) @ r)"
proof (cases s)
  case Nil
  with assms show ?thesis by (simp add: exponent_safe) (simp add: exponent_def)
next
  case (Cons e s1)
  note s = Cons
  show ?thesis
  proof (cases "e = 101 \<or> e = 69")
    case False
    with s show ?thesis by (simp add: exponent_def)
  next
    case True
    show ?thesis
    proof (cases s1)
      case Nil
      with s True assms show ?thesis
        by (auto simp: exponent_def safe_rest_def is_digit_def split: list.splits)
    next
      case (Cons c cs)
      show ?thesis
      proof (cases "c = MINUS \<or> c = 43")
        case sg: True
        with s Cons True digits_append [OF assms, of cs] show ?thesis
          by (simp add: exponent_def)
      next
        case sg: False
        with s Cons True digits_append [OF assms, of "c # cs"] show ?thesis
          by (simp add: exponent_def)
      qed
    qed
  qed
qed

lemma number_tail_append:
  assumes "safe_rest r"
  shows "number_tail neg ds (s @ r) = map_option (\<lambda>(v, x). (v, x @ r)) (number_tail neg ds s)"
  by (simp add: number_tail_def fraction_append [OF assms] exponent_append [OF assms]
      split: prod.splits)

lemma match_number_append:
  assumes "safe_rest r"
  shows "match_number (s @ r) = map_option (\<lambda>(v, x). (v, x @ r)) (match_number s)"
proof -
  have none: "match_number r = None"
    using assms by (auto simp: match_number_def safe_rest_def split: list.splits)
  have pos: "c \<noteq> MINUS \<Longrightarrow>
      match_number ((c # cs) @ r) = map_option (\<lambda>(v, x). (v, x @ r)) (match_number (c # cs))" for c cs
    using digits_append [OF assms, of cs]
    by (simp add: match_number_def number_tail_append [OF assms])
  show ?thesis
  proof (cases s)
    case Nil
    with none show ?thesis by (simp add: match_number_def)
  next
    case (Cons c cs)
    show ?thesis
    proof (cases "c = MINUS")
      case False
      with Cons pos show ?thesis by simp
    next
      case True
      show ?thesis
      proof (cases cs)
        case Nil
        with Cons True assms show ?thesis
          by (auto simp: match_number_def safe_rest_def split: list.splits)
      next
        case (Cons d ds)
        with \<open>s = c # cs\<close> True digits_append [OF assms, of ds] show ?thesis
          by (simp add: match_number_def number_tail_append [OF assms])
      qed
    qed
  qed
qed

lemma match_number_first:
  "match_number (c # cs) = Some x \<Longrightarrow>
   is_digit c \<or> (c = MINUS \<and> (\<exists>d ds. cs = d # ds \<and> is_digit d))"
  by (auto simp: match_number_def is_digit_def split: if_splits list.splits)

lemma wf_float_cases:
  assumes "wf_float l"
  shows "l = lit ''NaN'' \<or> l = lit ''Infinity'' \<or> l = lit ''-Infinity''
    \<or> (\<exists>c cs. l = c # cs \<and> match_number l = Some (JFloat l, [])
          \<and> (is_digit c \<or> (c = MINUS \<and> (\<exists>d ds. cs = d # ds \<and> is_digit d))))"
proof (cases l)
  case Nil
  with assms show ?thesis by (simp add: wf_float_def)
next
  case (Cons c cs)
  have s: "scan_once (Suc 0) (c # cs) = Some (JFloat l, [])"
    using assms Cons by (simp add: wf_float_def)
  show ?thesis
  proof (cases "match_number (c # cs) = Some (JFloat l, [])")
    case True
    with match_number_first [OF True] Cons show ?thesis by simp
  next
    case False
    with s have "JFloat l = JFloat (lit ''NaN'') \<or> JFloat l = JFloat (lit ''Infinity'')
        \<or> JFloat l = JFloat (lit ''-Infinity'')"
      by (auto split: if_splits list.splits)
    then show ?thesis by auto
  qed
qed

lemma scan_once_float:
  assumes "wf_float l" "safe_rest r"
  shows "scan_once (Suc n) (l @ r) = Some (JFloat l, r)"
proof -
  from wf_float_cases [OF assms(1)] consider
    (nan) "l = lit ''NaN''" | (inf) "l = lit ''Infinity''" | (ninf) "l = lit ''-Infinity''"
    | (num) c cs where "l = c # cs" "match_number l = Some (JFloat l, [])"
        "is_digit c \<or> (c = MINUS \<and> (\<exists>d ds. cs = d # ds \<and> is_digit d))"
    by blast
  then show ?thesis
  proof cases
    case nan
    then show ?thesis by (simp add: lit_def starts_with_def)
  next
    case inf
    then show ?thesis by (simp add: lit_def starts_with_def)
  next
    case ninf
    then show ?thesis by (simp add: lit_def starts_with_def)
  next
    case num
    have m: "match_number (c # cs @ r) = Some (JFloat l, r)"
      using match_number_append [OF assms(2), of l] num(1,2) by simp
    from num(3) show ?thesis
    proof
      assume "is_digit c"
      with m num(1) show ?thesis
        by (simp add: is_digit_def starts_with_def lit_def)
    next
      assume "c = MINUS \<and> (\<exists>d ds. cs = d # ds \<and> is_digit d)"
      then obtain d ds where "c = MINUS" "cs = d # ds" "is_digit d" by blast
      with m num(1) show ?thesis
        by (simp add: is_digit_def starts_with_def lit_def)
    qed
  qed
qed

lemma encode_first:
  assumes "wf_json v"
  shows "\<exists>c cs. encode lvl v = c # cs \<and> first_ok c"
proof (cases v)
  case JNull
  then show ?thesis by (simp add: lit_def first_ok_def is_json_ws_def)
next
  case (JBool b)
  then show ?thesis by (simp add: lit_def first_ok_def is_json_ws_def)
next
  case (JInt i)
  obtain d ds where "nat_digits (nat (- i)) = d # ds" "is_digit d" using nat_digits_hd by blast
  moreover obtain d' ds' where "nat_digits (nat i) = d' # ds'" "is_digit d'"
    using nat_digits_hd by blast
  ultimately show ?thesis using JInt
    by (auto simp: int_str_def first_ok_def is_json_ws_def is_digit_def)
next
  case (JFloat l)
  with assms have "wf_float l" by simp
  from wf_float_cases [OF this] JFloat show ?thesis
    by (auto simp: lit_def first_ok_def is_json_ws_def is_digit_def)
next
  case (JString s)
  then show ?thesis by (simp add: encode_string_def first_ok_def is_json_ws_def)
next
  case (JArray vs)
  then show ?thesis by (simp add: lit_def first_ok_def is_json_ws_def)
next
  case (JObject kvs)
  then show ?thesis by (simp add: lit_def first_ok_def is_json_ws_def)
qed

lemma skip_ws_first_ok: "first_ok c \<Longrightarrow> skip_ws (c # cs) = c # cs"
  by (simp add: skip_ws_def first_ok_def)

lemma skip_ws_newline_indent: "skip_ws (newline_indent l @ s) = skip_ws s"
proof -
  have "\<forall>c\<in>set (newline_indent l). is_json_ws c"
    by (auto simp: newline_indent_def is_json_ws_def)
  then show ?thesis unfolding skip_ws_def by (induction "newline_indent l") auto
qed

lemma safe_rest_simps:
  "safe_rest (COMMA # s)" "safe_rest (newline_indent l @ s)" "safe_rest []"
  by (simp_all add: safe_rest_def newline_indent_def)

lemma skip_ws_comma: "skip_ws (COMMA # s) = COMMA # s"
  by (simp add: skip_ws_def is_json_ws_def)

lemma skip_ws_close:
  "skip_ws (newline_indent l @ RBRACKET # s) = RBRACKET # s"
  "skip_ws (newline_indent l @ RBRACE # s) = RBRACE # s"
  by (simp_all add: skip_ws_newline_indent) (simp_all add: skip_ws_def is_json_ws_def)

lemma parse_array_loop:
  assumes "\<And>v n rest. v \<in> set vs \<Longrightarrow> safe_rest rest \<Longrightarrow> 2 * length (encode l v) + 1 \<le> n \<Longrightarrow>
             scan_once n (encode l v @ rest) = Some (v, rest)"
    and "\<forall>v\<in>set vs. wf_json v"
    and "vs \<noteq> []"
    and "2 * length (join (COMMA # newline_indent l) (map (encode l) vs)) + 2 \<le> n"
  shows "parse_array n
           (join (COMMA # newline_indent l) (map (encode l) vs) @ newline_indent l' @ RBRACKET # rest)
           acc
         = Some (JArray (acc @ vs), rest)"
  using assms
proof (induction vs arbitrary: n acc)
  case Nil
  then show ?case by simp
next
  case (Cons v vs)
  from Cons.prems(4) obtain m where n: "n = Suc m" by (cases n) auto
  show ?case
  proof (cases vs)
    case Nil
    have "scan_once m (encode l v @ newline_indent l' @ RBRACKET # rest)
        = Some (v, newline_indent l' @ RBRACKET # rest)"
      using Cons.prems(4) Nil n by (intro Cons.prems(1)) (simp_all add: safe_rest_simps)
    with Nil n show ?thesis by (simp add: skip_ws_close)
  next
    case (Cons w ws)
    let ?sep = "COMMA # newline_indent l"
    let ?J = "join ?sep (map (encode l) (w # ws))"
    let ?tail = "newline_indent l' @ RBRACKET # rest"
    obtain c cs where c: "encode l w = c # cs" "first_ok c"
      using encode_first [of w l] Cons.prems(2) Cons by auto
    obtain c' cs' where c': "encode l v = c' # cs'"
      using encode_first [of v l] Cons.prems(2) by auto
    have J: "?J @ ?tail = c # (cs @ (case ws of [] \<Rightarrow> [] | _ \<Rightarrow> ?sep @ join ?sep (map (encode l) ws)) @ ?tail)"
      using c by (cases ws) simp_all
    have 1: "scan_once m (encode l v @ ?sep @ ?J @ ?tail) = Some (v, ?sep @ ?J @ ?tail)"
      using Cons.prems(4) Cons n by (intro Cons.prems(1)) (simp_all add: safe_rest_simps)
    have 2: "skip_ws (newline_indent l @ ?J @ ?tail) = ?J @ ?tail"
      unfolding skip_ws_newline_indent J using c(2) by (rule skip_ws_first_ok)
    have 3: "parse_array m (?J @ ?tail) (acc @ [v]) = Some (JArray ((acc @ [v]) @ w # ws), rest)"
      unfolding Cons [symmetric]
    proof (rule Cons.IH)
      show "\<And>v n rest. v \<in> set vs \<Longrightarrow> safe_rest rest \<Longrightarrow> 2 * length (encode l v) + 1 \<le> n \<Longrightarrow>
             scan_once n (encode l v @ rest) = Some (v, rest)"
        using Cons.prems(1) by simp
      show "\<forall>v\<in>set vs. wf_json v" using Cons.prems(2) by simp
      show "vs \<noteq> []" using Cons by simp
      show "2 * length (join ?sep (map (encode l) vs)) + 2 \<le> m"
        using Cons.prems(4) Cons n c' by simp
    qed
    have "parse_array (Suc m) (encode l v @ ?sep @ ?J @ ?tail) acc
        = Some (JArray ((acc @ [v]) @ w # ws), rest)"
      using 1 2 3 by (simp add: skip_ws_comma del: join.simps)
    with Cons n show ?thesis by simp
  qed
qed

lemma dict_set_fresh: "k \<notin> fst ` set acc \<Longrightarrow> dict_set acc k v = acc @ [(k, v)]"
  by (induction acc) auto

lemma skip_ws_colon: "skip_ws (COLON # s) = COLON # s" "skip_ws (32 # s) = skip_ws s"
  by (simp_all add: skip_ws_def is_json_ws_def)

lemma parse_object_item:
  assumes "wf_str k" "first_ok c"
    and "scan_once m (c # cs @ tail) = Some (v, tail)"
  shows "parse_object (Suc m) (encode_string k @ [COLON, 32] @ (c # cs) @ tail) acc =
    (case skip_ws tail of
       [] \<Rightarrow> None
     | d # r3 \<Rightarrow>
         if d = RBRACE then Some (JObject (dict_set acc k v), r3)
         else if d = COMMA then parse_object m (skip_ws r3) (dict_set acc k v)
         else None)"
proof -
  have "scanstring (concat (map escape_char k) @ DQUOTE # COLON # 32 # c # cs @ tail)
      = Some (k, COLON # 32 # c # cs @ tail)"
    using assms(1) by (rule scanstring_encode)
  then show ?thesis
    using assms(2,3)
    by (simp add: encode_string_def skip_ws_colon skip_ws_first_ok)
qed

lemma parse_object_loop:
  assumes "\<And>kv n rest. kv \<in> set kvs \<Longrightarrow> safe_rest rest \<Longrightarrow> 2 * length (encode l (snd kv)) + 1 \<le> n \<Longrightarrow>
             scan_once n (encode l (snd kv) @ rest) = Some (snd kv, rest)"
    and "\<forall>kv\<in>set kvs. wf_str (fst kv) \<and> wf_json (snd kv)"
    and "distinct (map fst (acc @ kvs))"
    and "kvs \<noteq> []"
    and "2 * length (join (COMMA # newline_indent l) (map (encode_item l) kvs)) + 2 \<le> n"
  shows "parse_object n
           (join (COMMA # newline_indent l) (map (encode_item l) kvs) @ newline_indent l' @ RBRACE # rest)
           acc
         = Some (JObject (acc @ kvs), rest)"
  using assms
proof (induction kvs arbitrary: n acc)
  case Nil
  then show ?case by simp
next
  case (Cons kv kvs)
  obtain k v where kv: "kv = (k, v)" by (cases kv)
  from Cons.prems(5) obtain m where n: "n = Suc m" by (cases n) auto
  have wk: "wf_str k" and wv: "wf_json v" using Cons.prems(2) kv by auto
  obtain c cs where c: "encode l v = c # cs" "first_ok c"
    using encode_first [OF wv] by blast
  have fresh: "dict_set acc k v = acc @ [(k, v)]"
    using Cons.prems(3) kv by (intro dict_set_fresh) auto
  show ?case
  proof (cases kvs)
    case Nil
    let ?tail = "newline_indent l' @ RBRACE # rest"
    have "scan_once m (encode l (snd kv) @ ?tail) = Some (snd kv, ?tail)"
      using Cons.prems(5) Nil n kv
      by (intro Cons.prems(1)) (simp_all add: safe_rest_simps)
    then have "scan_once m (c # cs @ ?tail) = Some (v, ?tail)" using c kv by simp
    from parse_object_item [OF wk c(2) this, of acc] Nil n kv c fresh
    show ?thesis by (simp add: skip_ws_close)
  next
    case (Cons kw kws)
    let ?sep = "COMMA # newline_indent l"
    let ?J = "join ?sep (map (encode_item l) (kw # kws))"
    let ?end = "newline_indent l' @ RBRACE # rest"
    let ?tail = "?sep @ ?J @ ?end"
    have J: "?J @ ?end = DQUOTE # (concat (map escape_char (fst kw)) @ [DQUOTE] @ [COLON, 32]
        @ encode l (snd kw)
        @ (case kws of [] \<Rightarrow> [] | _ \<Rightarrow> ?sep @ join ?sep (map (encode_item l) kws)) @ ?end)"
      by (cases kws) (simp_all add: encode_string_def)
    have "scan_once m (encode l (snd kv) @ ?tail) = Some (snd kv, ?tail)"
      using Cons.prems(5) Cons n kv
      by (intro Cons.prems(1)) (simp_all add: safe_rest_simps)
    then have 1: "scan_once m (c # cs @ ?tail) = Some (v, ?tail)" using c kv by simp
    have "first_ok DQUOTE" by (simp add: first_ok_def is_json_ws_def)
    then have 2: "skip_ws (newline_indent l @ ?J @ ?end) = ?J @ ?end"
      unfolding skip_ws_newline_indent J by (rule skip_ws_first_ok)
    have 3: "parse_object m (?J @ ?end) (acc @ [(k, v)]) = Some (JObject ((acc @ [(k, v)]) @ kw # kws), rest)"
      unfolding Cons [symmetric]
    proof (rule Cons.IH)
      show "\<And>kv n rest. kv \<in> set kvs \<Longrightarrow> safe_rest rest \<Longrightarrow> 2 * length (encode l (snd kv)) + 1 \<le> n \<Longrightarrow>
             scan_once n (encode l (snd kv) @ rest) = Some (snd kv, rest)"
        using Cons.prems(1) by simp
      show "\<forall>kv\<in>set kvs. wf_str (fst kv) \<and> wf_json (snd kv)" using Cons.prems(2) by simp
      show "distinct (map fst ((acc @ [(k, v)]) @ kvs))" using Cons.prems(3) kv by simp
      show "kvs \<noteq> []" using Cons by simp
      show "2 * length (join ?sep (map (encode_item l) kvs)) + 2 \<le> m"
        using Cons.prems(5) Cons n by (simp add: encode_string_def)
    qed
    have "parse_object (Suc m) (encode_string k @ [COLON, 32] @ (c # cs) @ ?tail) acc
        = Some (JObject ((acc @ [(k, v)]) @ kw # kws), rest)"
      unfolding parse_object_item [OF wk c(2) 1, of acc]
      using 2 3 fresh by (simp add: skip_ws_comma del: join.simps)
    with Cons n kv c show ?thesis by simp
  qed
qed

text \<open>
  The scanner reads an encoded value and stops behind it; the bound that \<open>json_loads\<close>
  starts with is enough.
\<close>

lemma scan_encode:
  "wf_json v \<Longrightarrow> safe_rest rest \<Longrightarrow> 2 * length (encode lvl v) + 1 \<le> n \<Longrightarrow>
   scan_once n (encode lvl v @ rest) = Some (v, rest)"
proof (induction v arbitrary: lvl n rest)
  case JNull
  then obtain m where "n = Suc m" by (cases n) auto
  then show ?case by (simp add: lit_def starts_with_def)
next
  case (JBool b)
  then obtain m where "n = Suc m" by (cases n) auto
  then show ?case by (simp add: lit_def starts_with_def)
next
  case (JInt i)
  then obtain m where "n = Suc m" by (cases n) auto
  with JInt show ?case by (simp add: scan_once_int)
next
  case (JFloat l)
  then obtain m where "n = Suc m" by (cases n) auto
  with JFloat show ?case by (simp add: scan_once_float)
next
  case (JString s)
  then obtain m where "n = Suc m" by (cases n) auto
  with JString show ?case by (simp add: scanstring_encode_string)
next
  case (JArray vs)
  from JArray.prems obtain m where n: "n = Suc m" by (cases n) auto
  show ?case
  proof (cases "vs = []")
    case True
    with n show ?thesis by (simp add: lit_def skip_ws_def is_json_ws_def)
  next
    case False
    let ?J = "join (COMMA # newline_indent (Suc lvl)) (map (encode (Suc lvl)) vs)"
    let ?tail = "newline_indent lvl @ RBRACKET # rest"
    obtain v vs' where vs: "vs = v # vs'" using False by (cases vs) auto
    obtain c cs where c: "encode (Suc lvl) v = c # cs" "first_ok c"
      using encode_first [of v "Suc lvl"] JArray.prems(1) vs by auto
    have J: "?J @ ?tail = c # (cs @ (case vs' of [] \<Rightarrow> [] | _ \<Rightarrow>
        (COMMA # newline_indent (Suc lvl)) @ join (COMMA # newline_indent (Suc lvl)) (map (encode (Suc lvl)) vs')) @ ?tail)"
      using c vs by (cases vs') simp_all
    have sk: "skip_ws (newline_indent (Suc lvl) @ ?J @ ?tail) = ?J @ ?tail"
      unfolding skip_ws_newline_indent J using c(2) by (rule skip_ws_first_ok)
    have loop: "parse_array m (?J @ ?tail) [] = Some (JArray ([] @ vs), rest)"
    proof (rule parse_array_loop)
      show "\<And>v n rest. v \<in> set vs \<Longrightarrow> safe_rest rest \<Longrightarrow> 2 * length (encode (Suc lvl) v) + 1 \<le> n \<Longrightarrow>
             scan_once n (encode (Suc lvl) v @ rest) = Some (v, rest)"
        using JArray.IH JArray.prems(1) by simp
      show "\<forall>v\<in>set vs. wf_json v" using JArray.prems(1) by simp
      show "vs \<noteq> []" by fact
      show "2 * length ?J + 2 \<le> m" using JArray.prems(3) False n by simp
    qed
    have "c \<noteq> RBRACKET" using c(2) by (simp add: first_ok_def)
    with False n sk loop J show ?thesis by (simp del: join.simps)
  qed
next
  case (JObject kvs)
  from JObject.prems obtain m where n: "n = Suc m" by (cases n) auto
  show ?case
  proof (cases "kvs = []")
    case True
    with n show ?thesis by (simp add: lit_def skip_ws_def is_json_ws_def)
  next
    case False
    let ?J = "join (COMMA # newline_indent (Suc lvl)) (map (encode_item (Suc lvl)) kvs)"
    let ?tail = "newline_indent lvl @ RBRACE # rest"
    obtain kv kvs' where kvs: "kvs = kv # kvs'" using False by (cases kvs) auto
    have J: "?J @ ?tail = DQUOTE # (concat (map escape_char (fst kv)) @ [DQUOTE] @ [COLON, 32]
        @ encode (Suc lvl) (snd kv)
        @ (case kvs' of [] \<Rightarrow> [] | _ \<Rightarrow> (COMMA # newline_indent (Suc lvl))
             @ join (COMMA # newline_indent (Suc lvl)) (map (encode_item (Suc lvl)) kvs')) @ ?tail)"
      using kvs by (cases kvs') (simp_all add: encode_string_def)
    have "first_ok DQUOTE" by (simp add: first_ok_def is_json_ws_def)
    then have sk: "skip_ws (newline_indent (Suc lvl) @ ?J @ ?tail) = ?J @ ?tail"
      unfolding skip_ws_newline_indent J by (rule skip_ws_first_ok)
    have loop: "parse_object m (?J @ ?tail) [] = Some (JObject ([] @ kvs), rest)"
    proof (rule parse_object_loop)
      show "\<And>kv n rest. kv \<in> set kvs \<Longrightarrow> safe_rest rest \<Longrightarrow>
             2 * length (encode (Suc lvl) (snd kv)) + 1 \<le> n \<Longrightarrow>
             scan_once n (encode (Suc lvl) (snd kv) @ rest) = Some (snd kv, rest)"
      proof -
        fix kv n rest
        assume a: "kv \<in> set kvs" "safe_rest rest" "2 * length (encode (Suc lvl) (snd kv)) + 1 \<le> n"
        have "snd kv \<in> Basic_BNFs.snds kv" by (cases kv) simp
        moreover have "wf_json (snd kv)" using JObject.prems(1) a(1) by simp
        ultimately show "scan_once n (encode (Suc lvl) (snd kv) @ rest) = Some (snd kv, rest)"
          using JObject.IH a by blast
      qed
      show "\<forall>kv\<in>set kvs. wf_str (fst kv) \<and> wf_json (snd kv)" using JObject.prems(1) by simp
      show "distinct (map fst ([] @ kvs))" using JObject.prems(1) by simp
      show "kvs \<noteq> []" by fact
      show "2 * length ?J + 2 \<le> m" using JObject.prems(3) False n by simp
    qed
    from False n sk loop J show ?thesis by (simp del: join.simps)
  qed
qed

text \<open>The round trip: \<open>json.loads\<close> reads the value that \<open>json.dumps\<close> printed.\<close>

lemma loads_dumps: "wf_json v \<Longrightarrow> json_loads (json_dumps v) = Inr v"
proof -
  assume wf: "wf_json v"
  obtain c cs where c: "encode 0 v = c # cs" "first_ok c" using encode_first [OF wf] by blast
  have "scan_once (2 * length (encode 0 v) + 2) (encode 0 v @ []) = Some (v, [])"
    using wf by (intro scan_encode) (simp_all add: safe_rest_def)
  then show ?thesis
    using c by (simp add: json_loads_def json_dumps_def skip_ws_first_ok starts_with_def first_ok_def)
      (simp add: skip_ws_def)
qed

section \<open>What \<open>json.loads\<close> returns\<close>

lemma valid_text_simps:
  "valid_text []"
  "valid_text (c # s) = (c < 1114112 \<and> \<not> is_high_surrogate c \<and> \<not> is_low_surrogate c \<and> valid_text s)"
  "valid_text (a @ b) = (valid_text a \<and> valid_text b)"
  by (auto simp: valid_text_def)

lemma valid_text_subset: "set a \<subseteq> set b \<Longrightarrow> valid_text b \<Longrightarrow> valid_text a"
  by (auto simp: valid_text_def)

lemma valid_text_drop: "valid_text s \<Longrightarrow> valid_text (drop n s)"
  by (rule valid_text_subset [OF set_drop_subset])

lemma valid_text_dropWhile: "valid_text s \<Longrightarrow> valid_text (dropWhile P s)"
  by (auto simp: valid_text_def dest: set_dropWhileD)

lemma valid_text_takeWhile: "valid_text s \<Longrightarrow> valid_text (takeWhile P s)"
  by (auto simp: valid_text_def dest: set_takeWhileD)

lemma wf_str_Cons:
  "wf_str (c # k) = (c < 1114112 \<and> (case k of [] \<Rightarrow> True | d # _ \<Rightarrow> \<not> (is_high_surrogate c \<and> is_low_surrogate d)) \<and> wf_str k)"
proof (induction k arbitrary: c)
  case Nil
  then show ?case by simp
next
  case (Cons d k)
  then show ?case by (cases k) auto
qed

lemma valid_text_wf_str: "valid_text s \<Longrightarrow> wf_str s"
  by (induction s) (auto simp: wf_str_Cons valid_text_simps split: list.splits)

lemma hex_val_bound: "hex_val c = Some x \<Longrightarrow> x < 16"
  by (auto simp: hex_val_def split: if_splits)

lemma decode_bound: "decode_uXXXX r = Some u \<Longrightarrow> u < 65536"
proof -
  assume a: "decode_uXXXX r = Some u"
  then obtain a b c d r' x y z w where
    "r = a # b # c # d # r'" "hex_val a = Some x" "hex_val b = Some y" "hex_val c = Some z"
    "hex_val d = Some w" "u = ((x * 16 + y) * 16 + z) * 16 + w"
    by (auto simp: decode_uXXXX_def split: list.splits option.splits)
  then show ?thesis
    using hex_val_bound [of a x] hex_val_bound [of b y] hex_val_bound [of c z] hex_val_bound [of d w]
    by simp
qed

lemma simple_escape_range: "simple_escape e = Some ch \<Longrightarrow> ch < 128"
  by (auto simp: simple_escape_def split: if_splits)

lemma join_surrogates_range:
  "is_high_surrogate hi \<Longrightarrow> is_low_surrogate lo \<Longrightarrow>
   65536 \<le> join_surrogates hi lo \<and> join_surrogates hi lo < 1114112"
proof -
  assume "is_high_surrogate hi" "is_low_surrogate lo"
  then have h: "hi - 55296 \<le> 1023" and l: "56320 \<le> lo" "lo \<le> 57343"
    unfolding is_high_surrogate_def is_low_surrogate_def by linarith+
  from h have "(hi - 55296) * 1024 \<le> 1023 * 1024" by (rule mult_le_mono1)
  with l show ?thesis unfolding join_surrogates_def by linarith
qed

lemma scanstring_cases:
  assumes "scanstring t = Some (k, r)"
  obtains (quote) cs where "t = DQUOTE # cs" "k = []" "r = cs"
  | (raw) c cs k' where "t = c # cs" "c \<noteq> DQUOTE" "c \<noteq> BACKSLASH" "31 < c" "k = c # k'"
      "scanstring cs = Some (k', r)"
  | (esc) e cs ch k' where "t = BACKSLASH # e # cs" "e \<noteq> 117" "simple_escape e = Some ch"
      "k = ch # k'" "scanstring cs = Some (k', r)"
  | (pair) cs hi lo k' where "t = BACKSLASH # 117 # cs" "decode_uXXXX cs = Some hi"
      "is_high_surrogate hi" "starts_with [BACKSLASH, 117] (drop 4 cs)"
      "decode_uXXXX (drop 6 cs) = Some lo" "is_low_surrogate lo"
      "k = join_surrogates hi lo # k'" "scanstring (drop 10 cs) = Some (k', r)"
  | (uni) cs u k' where "t = BACKSLASH # 117 # cs" "decode_uXXXX cs = Some u"
      "is_high_surrogate u \<and> starts_with [BACKSLASH, 117] (drop 4 cs) \<longrightarrow>
         (\<exists>u2. decode_uXXXX (drop 6 cs) = Some u2 \<and> \<not> is_low_surrogate u2)"
      "k = u # k'" "scanstring (drop 4 cs) = Some (k', r)"
proof (cases t)
  case Nil
  with assms show ?thesis by simp
next
  case (Cons c cs)
  note t = Cons
  show ?thesis
  proof (cases "c = DQUOTE")
    case True
    with assms t show ?thesis by (intro quote [of cs]) simp_all
  next
    case nq: False
    show ?thesis
    proof (cases "c = BACKSLASH")
      case False
      with assms t nq obtain k' where "31 < c" "k = c # k'" "scanstring cs = Some (k', r)"
        by (auto simp: prepend_def split: if_splits)
      with t nq False show ?thesis by (intro raw [of c cs k']) simp_all
    next
      case True
      with assms t obtain e r0 where cs: "cs = e # r0" by (cases cs) auto
      show ?thesis
      proof (cases "e = 117")
        case False
        with assms t True cs obtain ch k' where
          "simple_escape e = Some ch" "k = ch # k'" "scanstring r0 = Some (k', r)"
          by (auto simp: prepend_def split: option.splits)
        with t True cs False show ?thesis by (intro esc [of e r0 ch k']) simp_all
      next
        case u: True
        with assms t True cs obtain uni where d: "decode_uXXXX r0 = Some uni"
          by (auto split: option.splits)
        show ?thesis
        proof (cases "is_high_surrogate uni \<and> starts_with [BACKSLASH, 117] (drop 4 r0)")
          case False
          with assms t True cs u d obtain k' where
            "k = uni # k'" "scanstring (drop 4 r0) = Some (k', r)"
            by (auto simp: prepend_def)
          with t True cs u d False show ?thesis by (intro uni [of r0 uni k']) auto
        next
          case hs: True
          with assms t True cs u d obtain uni2 where d2: "decode_uXXXX (drop 6 r0) = Some uni2"
            by (auto split: option.splits)
          show ?thesis
          proof (cases "is_low_surrogate uni2")
            case True
            with assms t \<open>c = BACKSLASH\<close> cs u d hs d2 obtain k' where
              "k = join_surrogates uni uni2 # k'" "scanstring (drop 10 r0) = Some (k', r)"
              by (auto simp: prepend_def)
            with t \<open>c = BACKSLASH\<close> cs u d hs d2 True show ?thesis
              by (intro pair [of r0 uni uni2 k']) auto
          next
            case False
            with assms t \<open>c = BACKSLASH\<close> cs u d hs d2 obtain k' where
              "k = uni # k'" "scanstring (drop 4 r0) = Some (k', r)"
              by (auto simp: prepend_def)
            with t \<open>c = BACKSLASH\<close> cs u d hs d2 False show ?thesis
              by (intro uni [of r0 uni k']) auto
          qed
        qed
      qed
    qed
  qed
qed

lemma scanstring_low_head:
  assumes "valid_text t" "scanstring t = Some (d # k, r)" "is_low_surrogate d"
  shows "starts_with [BACKSLASH, 117] t \<and> decode_uXXXX (drop 2 t) = Some d"
  using assms(2)
proof (cases rule: scanstring_cases)
  case (quote cs)
  then show ?thesis by simp
next
  case (raw c cs k')
  with assms show ?thesis by (simp add: valid_text_simps)
next
  case (esc e cs ch k')
  with simple_escape_range [of e ch] assms(3) show ?thesis by (simp add: is_low_surrogate_def)
next
  case (pair cs hi lo k')
  with join_surrogates_range [of hi lo] assms(3) show ?thesis by (simp add: is_low_surrogate_def)
next
  case (uni cs u k')
  then show ?thesis by (simp add: starts_with_def)
qed

lemma scanstring_wf:
  "valid_text s \<Longrightarrow> scanstring s = Some (k, r) \<Longrightarrow> wf_str k \<and> valid_text r"
proof (induction "length s" arbitrary: s k r rule: less_induct)
  case less
  from less.prems(2) show ?case
  proof (cases rule: scanstring_cases)
    case (quote cs)
    with less.prems show ?thesis by (simp add: valid_text_simps)
  next
    case (raw c cs k')
    have v: "valid_text cs" using raw(1) less.prems(1) by (simp add: valid_text_simps)
    with less.hyps [of cs k' r] raw have "wf_str k' \<and> valid_text r" by simp
    moreover have "c < 1114112" "\<not> is_high_surrogate c"
      using raw(1) less.prems(1) by (simp_all add: valid_text_simps)
    ultimately show ?thesis using raw by (simp add: wf_str_Cons split: list.splits)
  next
    case (esc e cs ch k')
    have v: "valid_text cs" using esc(1) less.prems(1) by (simp add: valid_text_simps)
    with less.hyps [of cs k' r] esc have "wf_str k' \<and> valid_text r" by simp
    moreover have "ch < 128" using esc(3) by (rule simple_escape_range)
    ultimately show ?thesis using esc
      by (simp add: wf_str_Cons is_high_surrogate_def split: list.splits)
  next
    case (pair cs hi lo k')
    have v: "valid_text (drop 10 cs)"
      using pair(1) less.prems(1) by (simp add: valid_text_simps valid_text_drop)
    with less.hyps [of "drop 10 cs" k' r] pair have "wf_str k' \<and> valid_text r" by simp
    moreover note join_surrogates_range [OF pair(3) pair(6)]
    ultimately show ?thesis using pair
      by (simp add: wf_str_Cons is_high_surrogate_def split: list.splits)
  next
    case (uni cs u k')
    have v: "valid_text (drop 4 cs)"
      using uni(1) less.prems(1) by (simp add: valid_text_simps valid_text_drop)
    with less.hyps [of "drop 4 cs" k' r] uni have w: "wf_str k' \<and> valid_text r" by simp
    have b: "u < 1114112" using decode_bound [OF uni(2)] by simp
    have "\<not> (is_high_surrogate u \<and> is_low_surrogate d)" if k': "k' = d # k''" for d k''
    proof
      assume a: "is_high_surrogate u \<and> is_low_surrogate d"
      with scanstring_low_head [OF v] uni(5) k'
      have "starts_with [BACKSLASH, 117] (drop 4 cs)" "decode_uXXXX (drop 2 (drop 4 cs)) = Some d"
        by auto
      with uni(3) a show False by auto
    qed
    with w b uni show ?thesis by (simp add: wf_str_Cons split: list.splits)
  qed
qed

lemma stop_nondigit: "stop x \<Longrightarrow> nondigit x"
  by (auto simp: stop_def nondigit_def split: list.splits)

lemma takeWhile_idem:
  "nondigit x \<Longrightarrow> takeWhile is_digit (takeWhile is_digit xs @ x) = takeWhile is_digit xs
     \<and> dropWhile is_digit (takeWhile is_digit xs @ x) = x"
  by (induction xs) (auto simp: nondigit_def split: list.splits)

lemma exponent_idem:
  assumes "exponent r = (ex, r2)"
  shows "r = ex @ r2 \<and> exponent ex = (ex, []) \<and> stop ex"
proof (cases "ex = []")
  case True
  with assms have "r2 = r"
    by (auto simp: exponent_def Let_def split: list.splits if_splits prod.splits)
  with True show ?thesis by (simp add: exponent_def stop_def)
next
  case False
  with assms obtain e r1 where r: "r = e # r1" "e = 101 \<or> e = 69"
    by (cases r) (auto simp: exponent_def split: if_splits)
  define sg where "sg = (case r1 of [] \<Rightarrow> [] | c # cs \<Rightarrow> if c = MINUS \<or> c = 43 then [c] else [])"
  define r3 where "r3 = (case r1 of [] \<Rightarrow> r1 | c # cs \<Rightarrow> if c = MINUS \<or> c = 43 then cs else r1)"
  have x: "exponent r = (if takeWhile is_digit r3 = [] then ([], r)
      else (e # sg @ takeWhile is_digit r3, dropWhile is_digit r3))"
    using r by (auto simp: exponent_def sg_def r3_def split: list.splits)
  with assms False have ne: "takeWhile is_digit r3 \<noteq> []"
    and ex: "ex = e # sg @ takeWhile is_digit r3" and r2: "r2 = dropWhile is_digit r3"
    by (auto split: if_splits)
  have r1: "r1 = sg @ r3" by (auto simp: sg_def r3_def split: list.splits)
  obtain d ds where tw: "takeWhile is_digit r3 = d # ds" using ne by (cases "takeWhile is_digit r3") auto
  then have dd: "is_digit d" by (metis list.set_intros(1) set_takeWhileD)
  have sgc: "sg = [] \<or> sg = [MINUS] \<or> sg = [43]" by (auto simp: sg_def split: list.splits)
  have all: "\<forall>x\<in>set (d # ds). is_digit x" using tw by (metis set_takeWhileD)
  have tt: "takeWhile is_digit (d # ds) = d # ds" "dropWhile is_digit (d # ds) = []"
    using all by (simp_all only: takeWhile_eq_all_conv dropWhile_eq_Nil_conv)
  have "exponent (e # sg @ d # ds) = (e # sg @ d # ds, [])"
    using sgc r(2) dd tt
    by (auto simp: exponent_def is_digit_def)
  moreover have "r = ex @ r2" using r r1 ex r2 by simp
  moreover have "stop ex" using ex r(2) by (auto simp: stop_def is_digit_def)
  ultimately show ?thesis using ex tw by simp
qed

lemma fraction_idem:
  assumes "fraction r = (fr, r1)" "stop x"
  shows "r = fr @ r1 \<and> fraction (fr @ x) = (fr, x) \<and> nondigit (fr @ x)"
proof (cases "fr = []")
  case True
  with assms(1) have "r1 = r" by (auto simp: fraction_def split: list.splits if_splits)
  moreover have "fraction x = ([], x)"
    using assms(2) by (auto simp: fraction_def stop_def split: list.splits)
  ultimately show ?thesis using True assms(2) by (simp add: stop_nondigit)
next
  case False
  with assms(1) obtain d ds where r: "r = 46 # d # ds" "is_digit d"
    by (auto simp: fraction_def split: list.splits if_splits)
  with assms(1) have fr: "fr = 46 # d # takeWhile is_digit ds" and r1: "r1 = dropWhile is_digit ds"
    by (simp_all add: fraction_def)
  have "fraction (fr @ x) = (fr, x)"
    using fr r(2) takeWhile_idem [OF stop_nondigit [OF assms(2)], of ds]
    by (simp add: fraction_def)
  moreover have "nondigit (fr @ x)" using fr by (simp add: nondigit_def is_digit_def)
  ultimately show ?thesis using r fr r1 by simp
qed

lemma number_tail_idem:
  assumes "number_tail neg ds r = Some (v, r2)"
  shows "\<exists>mid. r = mid @ r2 \<and> number_tail neg ds mid = Some (v, []) \<and> nondigit mid
    \<and> (\<forall>l. v = JFloat l \<longrightarrow> l = (if neg then [MINUS] else []) @ ds @ mid)
    \<and> ((\<exists>i. v = JInt i) \<or> (\<exists>l. v = JFloat l))"
proof -
  obtain fr r1 where f: "fraction r = (fr, r1)" by (cases "fraction r")
  obtain ex r2' where e: "exponent r1 = (ex, r2')" by (cases "exponent r1")
  from assms f e have r2: "r2' = r2"
    and v: "v = (if fr = [] \<and> ex = []
         then JInt (if neg then - int (digits_value ds) else int (digits_value ds))
         else JFloat ((if neg then [MINUS] else []) @ ds @ fr @ ex))"
    by (auto simp: number_tail_def split: if_splits)
  from exponent_idem [OF e] have ex: "r1 = ex @ r2'" "exponent ex = (ex, [])" "stop ex" by auto
  from fraction_idem [OF f ex(3)] have fr: "r = fr @ r1" "fraction (fr @ ex) = (fr, ex)"
    "nondigit (fr @ ex)" by auto
  have "number_tail neg ds (fr @ ex) = Some (v, [])"
    using fr(2) ex(2) v by (simp add: number_tail_def)
  moreover have "r = (fr @ ex) @ r2" using fr(1) ex(1) r2 by simp
  moreover have "\<forall>l. v = JFloat l \<longrightarrow> l = (if neg then [MINUS] else []) @ ds @ fr @ ex"
    using v by (auto split: if_splits)
  moreover have "(\<exists>i. v = JInt i) \<or> (\<exists>l. v = JFloat l)" using v by auto
  ultimately show ?thesis using fr(3) by (intro exI [of _ "fr @ ex"]) simp
qed

lemma match_number_split:
  assumes "match_number s = Some (v, r)"
  shows "\<exists>p. s = p @ r \<and> match_number p = Some (v, [])
    \<and> (\<forall>l. v = JFloat l \<longrightarrow> p = l \<and> match_number l = Some (JFloat l, []))
    \<and> ((\<exists>i. v = JInt i) \<or> (\<exists>l. v = JFloat l))"
proof -
  define neg where "neg = (case s of [] \<Rightarrow> False | c # cs \<Rightarrow> c = MINUS)"
  define s1 where "s1 = (case s of [] \<Rightarrow> s | c # cs \<Rightarrow> if c = MINUS then cs else s)"
  have s: "s = (if neg then [MINUS] else []) @ s1"
    by (auto simp: neg_def s1_def split: list.splits)
  have m: "match_number s = (case s1 of [] \<Rightarrow> None
         | d # ds \<Rightarrow>
             if d = 48 then number_tail neg [d] ds
             else if 49 \<le> d \<and> d \<le> 57
             then number_tail neg (d # takeWhile is_digit ds) (dropWhile is_digit ds)
             else None)"
    by (auto simp: match_number_def neg_def s1_def split: list.splits)
  with assms obtain d ds where s1: "s1 = d # ds" "d = 48 \<or> (49 \<le> d \<and> d \<le> 57)"
    by (cases s1) (auto split: if_splits)
  have dm: "d \<noteq> MINUS" using s1(2) by auto
  show ?thesis
  proof (cases "d = 48")
    case True
    with assms m s1 have "number_tail neg [d] ds = Some (v, r)" by simp
    from number_tail_idem [OF this] obtain mid where
      mid: "ds = mid @ r" "number_tail neg [d] mid = Some (v, [])"
        "\<forall>l. v = JFloat l \<longrightarrow> l = (if neg then [MINUS] else []) @ [d] @ mid"
        "(\<exists>i. v = JInt i) \<or> (\<exists>l. v = JFloat l)"
      by auto
    let ?p = "(if neg then [MINUS] else []) @ [d] @ mid"
    have "match_number ?p = Some (v, [])"
      using mid(2) True dm by (auto simp: match_number_def)
    moreover have "s = ?p @ r" using s s1 mid(1) by simp
    ultimately show ?thesis using mid(3,4) by (intro exI [of _ ?p]) auto
  next
    case False
    with s1(2) have rng: "49 \<le> d \<and> d \<le> 57" by simp
    with assms m s1 False have
      "number_tail neg (d # takeWhile is_digit ds) (dropWhile is_digit ds) = Some (v, r)"
      by simp
    from number_tail_idem [OF this] obtain mid where
      mid: "dropWhile is_digit ds = mid @ r"
        "number_tail neg (d # takeWhile is_digit ds) mid = Some (v, [])"
        "nondigit mid"
        "\<forall>l. v = JFloat l \<longrightarrow> l = (if neg then [MINUS] else []) @ (d # takeWhile is_digit ds) @ mid"
        "(\<exists>i. v = JInt i) \<or> (\<exists>l. v = JFloat l)"
      by auto
    let ?p = "(if neg then [MINUS] else []) @ (d # takeWhile is_digit ds) @ mid"
    have "match_number ?p = Some (v, [])"
      using mid(2) False rng dm takeWhile_idem [OF mid(3), of ds]
      by (auto simp: match_number_def)
    moreover have "ds = takeWhile is_digit ds @ mid @ r"
      using mid(1) by (metis takeWhile_dropWhile_id)
    then have "s = ?p @ r" using s s1 by simp
    ultimately show ?thesis using mid(4,5) by (intro exI [of _ ?p]) auto
  qed
qed

lemma match_number_wf:
  assumes "valid_text s" "match_number s = Some (v, r)"
  shows "wf_json v \<and> valid_text r"
proof -
  from match_number_split [OF assms(2)] obtain p where
    p: "s = p @ r" "\<forall>l. v = JFloat l \<longrightarrow> p = l \<and> match_number l = Some (JFloat l, [])"
      "(\<exists>i. v = JInt i) \<or> (\<exists>l. v = JFloat l)"
    by blast
  have vr: "valid_text r" "valid_text p" using assms(1) p(1) by (simp_all add: valid_text_simps)
  from p(3) show ?thesis
  proof
    assume "\<exists>i. v = JInt i"
    with vr show ?thesis by auto
  next
    assume "\<exists>l. v = JFloat l"
    then obtain l where v: "v = JFloat l" by blast
    with p(2) have l: "p = l" "match_number l = Some (JFloat l, [])" by auto
    then obtain c cs where c: "l = c # cs" by (cases l) (auto simp: match_number_def)
    from match_number_first [of c cs] l(2) c
    have "is_digit c \<or> (c = MINUS \<and> (\<exists>d ds. cs = d # ds \<and> is_digit d))" by simp
    then have "scan_once (Suc 0) (c # cs) = match_number (c # cs)"
      by (auto simp: is_digit_def starts_with_def lit_def)
    with l c have "scan_once 1 l = Some (JFloat l, [])" by simp
    with vr l(1) v show ?thesis by (simp add: wf_float_def)
  qed
qed

lemma valid_text_skip_ws: "valid_text s \<Longrightarrow> valid_text (skip_ws s)"
  by (simp add: skip_ws_def valid_text_dropWhile)

lemma valid_text_skip_ws_Cons: "valid_text s \<Longrightarrow> skip_ws s = d # r \<Longrightarrow> valid_text r"
  using valid_text_skip_ws [of s] by (simp add: valid_text_simps)

lemma dict_set_keys:
  "map fst (dict_set acc k v) = (if k \<in> set (map fst acc) then map fst acc else map fst acc @ [k])"
  by (induction acc k v rule: dict_set.induct) auto

lemma dict_set_values: "set (dict_set acc k v) \<subseteq> insert (k, v) (set acc)"
  by (induction acc k v rule: dict_set.induct) auto

lemma dict_set_wf:
  assumes "wf_json (JObject acc)" "wf_str k" "wf_json v"
  shows "wf_json (JObject (dict_set acc k v))"
proof -
  have "distinct (map fst (dict_set acc k v))"
    using assms(1) by (simp add: dict_set_keys)
  moreover have "\<forall>kv\<in>set (dict_set acc k v). wf_str (fst kv) \<and> wf_json (snd kv)"
    using assms dict_set_values [of acc k v] by auto
  ultimately show ?thesis by simp
qed

lemma wf_float_constants:
  "wf_float (lit ''NaN'')" "wf_float (lit ''Infinity'')" "wf_float (lit ''-Infinity'')"
  by (simp_all add: wf_float_def valid_text_def lit_def starts_with_def
      is_high_surrogate_def is_low_surrogate_def)

lemma scan_once_step_wf:
  assumes IHa: "\<And>s acc v r. valid_text s \<Longrightarrow> (\<forall>x\<in>set acc. wf_json x) \<Longrightarrow>
        parse_array n s acc = Some (v, r) \<Longrightarrow> wf_json v \<and> valid_text r"
    and IHo: "\<And>s acc v r. valid_text s \<Longrightarrow> wf_json (JObject acc) \<Longrightarrow>
        parse_object n s acc = Some (v, r) \<Longrightarrow> wf_json v \<and> valid_text r"
    and v: "valid_text s" and sc: "scan_once (Suc n) s = Some (v, r)"
  shows "wf_json v \<and> valid_text r"
proof (cases s)
  case Nil
  with sc show ?thesis by simp
next
  case (Cons c cs)
  have vcs: "valid_text cs" using v Cons by (simp add: valid_text_simps)
  consider (str) "c = DQUOTE" | (obj) "c = LBRACE" | (arr) "c = LBRACKET"
    | (other) "c \<noteq> DQUOTE" "c \<noteq> LBRACE" "c \<noteq> LBRACKET" by blast
  then show ?thesis
  proof cases
    case str
    with sc Cons obtain k where "scanstring cs = Some (k, r)" "v = JString k" by auto
    with scanstring_wf [OF vcs] show ?thesis by simp
  next
    case obj
    with sc Cons obtain d r0 where sk: "skip_ws cs = d # r0"
      by (cases "skip_ws cs") auto
    show ?thesis
    proof (cases "d = RBRACE")
      case True
      with sc Cons obj sk valid_text_skip_ws_Cons [OF vcs sk] show ?thesis by auto
    next
      case False
      with sc Cons obj sk have "parse_object n (d # r0) [] = Some (v, r)" by simp
      moreover have "valid_text (d # r0)" using valid_text_skip_ws [OF vcs] sk by simp
      ultimately show ?thesis by (intro IHo [of "d # r0" "[]"]) simp_all
    qed
  next
    case arr
    with sc Cons obtain d r0 where sk: "skip_ws cs = d # r0"
      by (cases "skip_ws cs") auto
    show ?thesis
    proof (cases "d = RBRACKET")
      case True
      with sc Cons arr sk valid_text_skip_ws_Cons [OF vcs sk] show ?thesis by auto
    next
      case False
      with sc Cons arr sk have "parse_array n (d # r0) [] = Some (v, r)" by simp
      moreover have "valid_text (d # r0)" using valid_text_skip_ws [OF vcs] sk by simp
      ultimately show ?thesis by (intro IHa [of "d # r0" "[]"]) simp_all
    qed
  next
    case other
    have d: "valid_text (drop k s)" for k using v by (rule valid_text_drop)
    from sc Cons other have
      "(v, r) = (JNull, drop 4 s) \<or> (v, r) = (JBool True, drop 4 s) \<or> (v, r) = (JBool False, drop 5 s)
       \<or> (v, r) = (JFloat (lit ''NaN''), drop 3 s) \<or> (v, r) = (JFloat (lit ''Infinity''), drop 8 s)
       \<or> (v, r) = (JFloat (lit ''-Infinity''), drop 9 s) \<or> match_number s = Some (v, r)"
      by (simp split: if_splits)
    then show ?thesis
      using d match_number_wf [OF v] wf_float_constants by auto
  qed
qed

lemma parse_array_step_wf:
  assumes IHs: "\<And>s v r. valid_text s \<Longrightarrow> scan_once n s = Some (v, r) \<Longrightarrow> wf_json v \<and> valid_text r"
    and IHa: "\<And>s acc v r. valid_text s \<Longrightarrow> (\<forall>x\<in>set acc. wf_json x) \<Longrightarrow>
        parse_array n s acc = Some (v, r) \<Longrightarrow> wf_json v \<and> valid_text r"
    and v: "valid_text s" and acc: "\<forall>x\<in>set acc. wf_json x"
    and pa: "parse_array (Suc n) s acc = Some (v, r)"
  shows "wf_json v \<and> valid_text r"
proof -
  from pa obtain v0 r0 where s0: "scan_once n s = Some (v0, r0)"
    by (auto split: option.splits)
  from IHs [OF v s0] have w0: "wf_json v0" "valid_text r0" by auto
  from pa s0 obtain d r' where sk: "skip_ws r0 = d # r'"
    by (cases "skip_ws r0") auto
  have vr': "valid_text r'" using valid_text_skip_ws_Cons [OF w0(2) sk] .
  show ?thesis
  proof (cases "d = RBRACKET")
    case True
    with pa s0 sk w0 acc vr' show ?thesis by auto
  next
    case False
    with pa s0 sk have "d = COMMA" "parse_array n (skip_ws r') (acc @ [v0]) = Some (v, r)"
      by (auto split: if_splits)
    then show ?thesis
      using acc w0(1) vr' by (intro IHa [of "skip_ws r'" "acc @ [v0]"]) (auto simp: valid_text_skip_ws)
  qed
qed

lemma parse_object_step_wf:
  assumes IHs: "\<And>s v r. valid_text s \<Longrightarrow> scan_once n s = Some (v, r) \<Longrightarrow> wf_json v \<and> valid_text r"
    and IHo: "\<And>s acc v r. valid_text s \<Longrightarrow> wf_json (JObject acc) \<Longrightarrow>
        parse_object n s acc = Some (v, r) \<Longrightarrow> wf_json v \<and> valid_text r"
    and v: "valid_text s" and acc: "wf_json (JObject acc)"
    and po: "parse_object (Suc n) s acc = Some (v, r)"
  shows "wf_json v \<and> valid_text r"
proof -
  from po obtain s1 where s: "s = DQUOTE # s1"
    by (cases s) (auto split: if_splits)
  have vs1: "valid_text s1" using v s by (simp add: valid_text_simps)
  from po s obtain key r0 where ss: "scanstring s1 = Some (key, r0)"
    by (auto split: option.splits)
  from scanstring_wf [OF vs1 ss] have k: "wf_str key" "valid_text r0" by auto
  from po s ss obtain r1 where sk1: "skip_ws r0 = COLON # r1"
    by (cases "skip_ws r0") (auto split: if_splits)
  have vr1: "valid_text r1" using valid_text_skip_ws_Cons [OF k(2) sk1] .
  from po s ss sk1 obtain v0 r2 where s0: "scan_once n (skip_ws r1) = Some (v0, r2)"
    by (auto split: option.splits)
  from IHs [OF valid_text_skip_ws [OF vr1] s0] have w0: "wf_json v0" "valid_text r2" by auto
  from po s ss sk1 s0 obtain d r3 where sk3: "skip_ws r2 = d # r3"
    by (cases "skip_ws r2") auto
  have vr3: "valid_text r3" using valid_text_skip_ws_Cons [OF w0(2) sk3] .
  have da: "wf_json (JObject (dict_set acc key v0))" using acc k(1) w0(1) by (rule dict_set_wf)
  show ?thesis
  proof (cases "d = RBRACE")
    case True
    with po s ss sk1 s0 sk3 da vr3 show ?thesis by auto
  next
    case False
    with po s ss sk1 s0 sk3 have "parse_object n (skip_ws r3) (dict_set acc key v0) = Some (v, r)"
      by (auto split: if_splits)
    then show ?thesis
      using da vr3 by (intro IHo [of "skip_ws r3" "dict_set acc key v0"]) (auto simp: valid_text_skip_ws)
  qed
qed

lemma parse_wf:
  "(\<forall>s v r. valid_text s \<longrightarrow> scan_once n s = Some (v, r) \<longrightarrow> wf_json v \<and> valid_text r)
   \<and> (\<forall>s acc v r. valid_text s \<longrightarrow> (\<forall>x\<in>set acc. wf_json x) \<longrightarrow>
        parse_array n s acc = Some (v, r) \<longrightarrow> wf_json v \<and> valid_text r)
   \<and> (\<forall>s acc v r. valid_text s \<longrightarrow> wf_json (JObject acc) \<longrightarrow>
        parse_object n s acc = Some (v, r) \<longrightarrow> wf_json v \<and> valid_text r)"
proof (induction n)
  case 0
  then show ?case by simp
next
  case (Suc n)
  show ?case
  proof (intro conjI allI impI)
    fix s v r
    assume "valid_text s" "scan_once (Suc n) s = Some (v, r)"
    then show "wf_json v" "valid_text r"
      using scan_once_step_wf [of n s v r] Suc by blast+
  next
    fix s acc v r
    assume "valid_text s" "\<forall>x\<in>set acc. wf_json x" "parse_array (Suc n) s acc = Some (v, r)"
    then show "wf_json v" "valid_text r"
      using parse_array_step_wf [of n s acc v r] Suc by blast+
  next
    fix s acc v r
    assume "valid_text s" "wf_json (JObject acc)" "parse_object (Suc n) s acc = Some (v, r)"
    then show "wf_json v" "valid_text r"
      using parse_object_step_wf [of n s acc v r] Suc by blast+
  qed
qed

text \<open>What \<open>json.loads\<close> reads from text is such a value.\<close>

lemma json_loads_wf: "valid_text t \<Longrightarrow> json_loads t = Inr v \<Longrightarrow> wf_json v"
proof -
  assume t: "valid_text t" and l: "json_loads t = Inr v"
  then obtain r where "scan_once (2 * length t + 2) (skip_ws t) = Some (v, r)"
    by (auto simp: json_loads_def split: if_splits option.splits)
  with parse_wf [of "2 * length t + 2"] valid_text_skip_ws [OF t] show ?thesis by blast
qed

section \<open>The bound of the scanner is never reached\<close>

text \<open>
  Every call of the scanner leaves less text than it was given. So the bound with which
  \<open>json_loads\<close> starts is never used up: a larger one gives the same result, and
  \<open>JSONDecodeError\<close> in the model is always an error of the text.
\<close>

lemma scanstring_shorter: "scanstring s = Some (k, r) \<Longrightarrow> length r < length s"
proof (induction "length s" arbitrary: s k r rule: less_induct)
  case less
  from less.prems show ?case
  proof (cases rule: scanstring_cases)
    case (quote cs)
    then show ?thesis by simp
  next
    case (raw c cs k')
    with less.hyps [of cs k' r] show ?thesis by simp
  next
    case (esc e cs ch k')
    with less.hyps [of cs k' r] show ?thesis by simp
  next
    case (pair cs hi lo k')
    have "length (drop 10 cs) < length s" using pair(1) by simp
    from less.hyps [OF this pair(8)] have "length r < length (drop 10 cs)" .
    with pair(1) show ?thesis by simp
  next
    case (uni cs u k')
    have "length (drop 4 cs) < length s" using uni(1) by simp
    from less.hyps [OF this uni(5)] have "length r < length (drop 4 cs)" .
    with uni(1) show ?thesis by simp
  qed
qed

lemma skip_ws_length: "length (skip_ws s) \<le> length s"
  by (simp add: skip_ws_def length_dropWhile_le)

lemma skip_ws_Cons_length: "skip_ws s = d # r \<Longrightarrow> length r < length s"
  using skip_ws_length [of s] by simp

lemma match_number_shorter: "match_number s = Some (v, r) \<Longrightarrow> length r < length s"
proof -
  assume "match_number s = Some (v, r)"
  from match_number_split [OF this] obtain p where p: "s = p @ r" "match_number p = Some (v, [])"
    by blast
  have "p \<noteq> []" using p(2) by (auto simp: match_number_def)
  with p(1) show ?thesis by (cases p) auto
qed

lemma parse_shorter:
  "(\<forall>s v r. scan_once n s = Some (v, r) \<longrightarrow> length r < length s)
   \<and> (\<forall>s acc v r. parse_array n s acc = Some (v, r) \<longrightarrow> length r < length s)
   \<and> (\<forall>s acc v r. parse_object n s acc = Some (v, r) \<longrightarrow> length r < length s)"
proof (induction n)
  case 0
  then show ?case by simp
next
  case (Suc n)
  have so: "length r < length s" if sc: "scan_once (Suc n) s = Some (v, r)" for s v r
  proof (cases s)
    case Nil
    with sc show ?thesis by simp
  next
    case (Cons c cs)
    consider (str) "c = DQUOTE" | (obj) "c = LBRACE" | (arr) "c = LBRACKET"
      | (other) "c \<noteq> DQUOTE" "c \<noteq> LBRACE" "c \<noteq> LBRACKET" by blast
    then show ?thesis
    proof cases
      case str
      with sc Cons obtain k where "scanstring cs = Some (k, r)" by auto
      from scanstring_shorter [OF this] Cons show ?thesis by simp
    next
      case obj
      with sc Cons obtain d r0 where sk: "skip_ws cs = d # r0" by (cases "skip_ws cs") auto
      show ?thesis
      proof (cases "d = RBRACE")
        case True
        with sc Cons obj sk skip_ws_Cons_length [OF sk] show ?thesis by auto
      next
        case False
        with sc Cons obj sk have "parse_object n (d # r0) [] = Some (v, r)" by simp
        with Suc have "length r < length (d # r0)" by blast
        with skip_ws_length [of cs] sk Cons show ?thesis by simp
      qed
    next
      case arr
      with sc Cons obtain d r0 where sk: "skip_ws cs = d # r0" by (cases "skip_ws cs") auto
      show ?thesis
      proof (cases "d = RBRACKET")
        case True
        with sc Cons arr sk skip_ws_Cons_length [OF sk] show ?thesis by auto
      next
        case False
        with sc Cons arr sk have "parse_array n (d # r0) [] = Some (v, r)" by simp
        with Suc have "length r < length (d # r0)" by blast
        with skip_ws_length [of cs] sk Cons show ?thesis by simp
      qed
    next
      case other
      from sc Cons other have
        "r = drop 4 s \<or> r = drop 5 s \<or> r = drop 3 s \<or> r = drop 8 s \<or> r = drop 9 s
         \<or> match_number s = Some (v, r)"
        by (auto split: if_splits)
      with match_number_shorter [of s v r] Cons show ?thesis by auto
    qed
  qed
  have pa: "length r < length s" if p: "parse_array (Suc n) s acc = Some (v, r)" for s acc v r
  proof -
    from p obtain v0 r0 where s0: "scan_once n s = Some (v0, r0)" by (auto split: option.splits)
    with Suc have l0: "length r0 < length s" by blast
    from p s0 obtain d r' where sk: "skip_ws r0 = d # r'" by (cases "skip_ws r0") auto
    note l1 = skip_ws_Cons_length [OF sk]
    show ?thesis
    proof (cases "d = RBRACKET")
      case True
      with p s0 sk l0 l1 show ?thesis by auto
    next
      case False
      with p s0 sk have "parse_array n (skip_ws r') (acc @ [v0]) = Some (v, r)"
        by (auto split: if_splits)
      with Suc have "length r < length (skip_ws r')" by blast
      with skip_ws_length [of r'] l0 l1 show ?thesis by simp
    qed
  qed
  have po: "length r < length s" if p: "parse_object (Suc n) s acc = Some (v, r)" for s acc v r
  proof -
    from p obtain s1 where s: "s = DQUOTE # s1" by (cases s) (auto split: if_splits)
    from p s obtain key r0 where ss: "scanstring s1 = Some (key, r0)" by (auto split: option.splits)
    note l0 = scanstring_shorter [OF ss]
    from p s ss obtain r1 where sk1: "skip_ws r0 = COLON # r1"
      by (cases "skip_ws r0") (auto split: if_splits)
    note l1 = skip_ws_Cons_length [OF sk1]
    from p s ss sk1 obtain v0 r2 where s0: "scan_once n (skip_ws r1) = Some (v0, r2)"
      by (auto split: option.splits)
    with Suc have l2: "length r2 < length (skip_ws r1)" by blast
    from p s ss sk1 s0 obtain d r3 where sk3: "skip_ws r2 = d # r3" by (cases "skip_ws r2") auto
    note l3 = skip_ws_Cons_length [OF sk3]
    have l: "length r3 < length s" using s l0 l1 l2 l3 skip_ws_length [of r1] by simp
    show ?thesis
    proof (cases "d = RBRACE")
      case True
      with p s ss sk1 s0 sk3 l show ?thesis by auto
    next
      case False
      with p s ss sk1 s0 sk3 have "parse_object n (skip_ws r3) (dict_set acc key v0) = Some (v, r)"
        by (auto split: if_splits)
      with Suc have "length r < length (skip_ws r3)" by blast
      with skip_ws_length [of r3] l show ?thesis by simp
    qed
  qed
  from so pa po show ?case by blast
qed

lemma scan_once_shorter: "scan_once n s = Some (v, r) \<Longrightarrow> length r < length s"
  using parse_shorter by blast

lemma parse_fuel:
  "(\<forall>m s. n \<le> m \<longrightarrow> 2 * length s + 1 \<le> n \<longrightarrow> scan_once m s = scan_once n s)
   \<and> (\<forall>m s acc. n \<le> m \<longrightarrow> 2 * length s + 2 \<le> n \<longrightarrow> parse_array m s acc = parse_array n s acc)
   \<and> (\<forall>m s acc. n \<le> m \<longrightarrow> 2 * length s + 2 \<le> n \<longrightarrow> parse_object m s acc = parse_object n s acc)"
proof (induction n)
  case 0
  then show ?case by simp
next
  case (Suc n)
  have IHs: "scan_once m s = scan_once n s" if "n \<le> m" "2 * length s + 1 \<le> n" for m s
    using Suc that by blast
  have IHa: "parse_array m s acc = parse_array n s acc" if "n \<le> m" "2 * length s + 2 \<le> n" for m s acc
    using Suc that by blast
  have IHo: "parse_object m s acc = parse_object n s acc" if "n \<le> m" "2 * length s + 2 \<le> n" for m s acc
    using Suc that by blast
  have so: "scan_once (Suc m) s = scan_once (Suc n) s" if le: "n \<le> m" "2 * length s + 1 \<le> Suc n" for m s
  proof (cases s)
    case Nil
    then show ?thesis by simp
  next
    case (Cons c cs)
    show ?thesis
    proof (cases "skip_ws cs")
      case Nil
      with Cons show ?thesis by simp
    next
      case sk: (Cons d r0)
      have "2 * length (d # r0) + 2 \<le> n" using skip_ws_length [of cs] sk Cons le(2) by simp
      with le(1) have "parse_array m (d # r0) [] = parse_array n (d # r0) []"
        "parse_object m (d # r0) [] = parse_object n (d # r0) []"
        by (auto intro: IHa IHo)
      with Cons sk show ?thesis by simp
    qed
  qed
  have pa: "parse_array (Suc m) s acc = parse_array (Suc n) s acc"
    if le: "n \<le> m" "2 * length s + 2 \<le> Suc n" for m s acc
  proof -
    have e: "scan_once m s = scan_once n s" using le by (intro IHs) simp_all
    show ?thesis
    proof (cases "scan_once n s")
      case None
      with e show ?thesis by simp
    next
      case (Some x)
      obtain v0 r0 where x: "x = (v0, r0)" by (cases x)
      from scan_once_shorter Some x have l0: "length r0 < length s" by blast
      show ?thesis
      proof (cases "skip_ws r0")
        case Nil
        with e Some x show ?thesis by simp
      next
        case (Cons d r')
        note l1 = skip_ws_Cons_length [OF Cons]
        have "2 * length (skip_ws r') + 2 \<le> n"
          using skip_ws_length [of r'] l0 l1 le(2) by simp
        with le(1) have "parse_array m (skip_ws r') (acc @ [v0]) = parse_array n (skip_ws r') (acc @ [v0])"
          by (rule IHa)
        with e Some x Cons show ?thesis by simp
      qed
    qed
  qed
  have po: "parse_object (Suc m) s acc = parse_object (Suc n) s acc"
    if le: "n \<le> m" "2 * length s + 2 \<le> Suc n" for m s acc
  proof (cases s)
    case Nil
    then show ?thesis by simp
  next
    case (Cons q s1)
    show ?thesis
    proof (cases "scanstring s1")
      case None
      with Cons show ?thesis by simp
    next
      case (Some x)
      obtain key r0 where x: "x = (key, r0)" by (cases x)
      from scanstring_shorter Some x have l0: "length r0 < length s1" by blast
      show ?thesis
      proof (cases "skip_ws r0")
        case Nil
        with Cons Some x show ?thesis by simp
      next
        case sk1: (Cons c r1)
        note l1 = skip_ws_Cons_length [OF sk1]
        have "2 * length (skip_ws r1) + 1 \<le> n"
          using skip_ws_length [of r1] l0 l1 le(2) Cons by simp
        with le(1) have e: "scan_once m (skip_ws r1) = scan_once n (skip_ws r1)"
          by (rule IHs)
        show ?thesis
        proof (cases "scan_once n (skip_ws r1)")
          case None
          with e Cons Some x sk1 show ?thesis by simp
        next
          case s0: (Some y)
          obtain v0 r2 where y: "y = (v0, r2)" by (cases y)
          from scan_once_shorter s0 y have l2: "length r2 < length (skip_ws r1)" by blast
          show ?thesis
          proof (cases "skip_ws r2")
            case Nil
            with e Cons Some x sk1 s0 y show ?thesis by simp
          next
            case sk3: (Cons d r3)
            note l3 = skip_ws_Cons_length [OF sk3]
            have "2 * length (skip_ws r3) + 2 \<le> n"
              using skip_ws_length [of r3] skip_ws_length [of r1] l0 l1 l2 l3 le(2) Cons by simp
            with le(1) have "parse_object m (skip_ws r3) (dict_set acc key v0)
                = parse_object n (skip_ws r3) (dict_set acc key v0)"
              by (rule IHo)
            with e Cons Some x sk1 s0 y sk3 show ?thesis by simp
          qed
        qed
      qed
    qed
  qed
  show ?case
  proof (intro conjI allI impI)
    fix m and s :: pystr
    assume a: "Suc n \<le> m" "2 * length s + 1 \<le> Suc n"
    then obtain m' where m: "m = Suc m'" "n \<le> m'" by (cases m) auto
    from so [OF m(2) a(2)] m(1) show "scan_once m s = scan_once (Suc n) s" by simp
  next
    fix m acc and s :: pystr
    assume a: "Suc n \<le> m" "2 * length s + 2 \<le> Suc n"
    then obtain m' where m: "m = Suc m'" "n \<le> m'" by (cases m) auto
    from pa [OF m(2) a(2)] m(1) show "parse_array m s acc = parse_array (Suc n) s acc" by simp
  next
    fix m acc and s :: pystr
    assume a: "Suc n \<le> m" "2 * length s + 2 \<le> Suc n"
    then obtain m' where m: "m = Suc m'" "n \<le> m'" by (cases m) auto
    from po [OF m(2) a(2)] m(1) show "parse_object m s acc = parse_object (Suc n) s acc" by simp
  qed
qed

lemma json_loads_fuel:
  "2 * length s + 2 \<le> n \<Longrightarrow> scan_once n (skip_ws s) = scan_once (2 * length s + 2) (skip_ws s)"
proof -
  assume "2 * length s + 2 \<le> n"
  moreover have "2 * length (skip_ws s) + 1 \<le> 2 * length s + 2"
    using skip_ws_length [of s] by simp
  ultimately show ?thesis using parse_fuel [of "2 * length s + 2"] by blast
qed

section \<open>What \<open>json.dump\<close> writes\<close>

lemma valid_text_ascii: "\<forall>c\<in>set t. c < 128 \<Longrightarrow> valid_text t"
  by (auto simp: valid_text_def is_high_surrogate_def is_low_surrogate_def)

lemma hex4_valid: "valid_text (hex4 n)"
proof -
  have "hex_digit (x mod 16) < 128" for x
  proof -
    have "x mod 16 < 16" by simp
    then show ?thesis unfolding hex_digit_def by (auto split: if_splits)
  qed
  then show ?thesis by (intro valid_text_ascii) (simp add: hex4_def)
qed

lemma escape_char_valid: "valid_text (escape_char c)"
proof -
  have "32 \<le> c \<and> c \<le> 126 \<Longrightarrow> valid_text [c]"
    by (intro valid_text_ascii) simp
  moreover have "valid_text [BACKSLASH, e]" if "e < 128" for e
    using that by (intro valid_text_ascii) simp
  moreover have "valid_text (BACKSLASH # 117 # hex4 n)" for n
    using hex4_valid [of n] by (simp add: valid_text_simps is_high_surrogate_def is_low_surrogate_def)
  moreover have "valid_text (BACKSLASH # 117 # hex4 n @ BACKSLASH # 117 # hex4 m)" for n m
    using hex4_valid [of n] hex4_valid [of m]
    by (simp add: valid_text_simps is_high_surrogate_def is_low_surrogate_def)
  ultimately show ?thesis unfolding escape_char_def by simp
qed

lemma encode_string_valid: "valid_text (encode_string s)"
proof -
  have "valid_text (concat (map escape_char s))"
    by (induction s) (simp_all add: valid_text_simps escape_char_valid)
  then show ?thesis
    by (simp add: encode_string_def valid_text_simps is_high_surrogate_def is_low_surrogate_def)
qed

lemma int_str_valid: "valid_text (int_str i)"
proof -
  have "valid_text (nat_digits n)" for n
    using nat_digits_digits [of n] by (intro valid_text_ascii) (auto simp: is_digit_def)
  then show ?thesis
    by (simp add: int_str_def valid_text_simps is_high_surrogate_def is_low_surrogate_def)
qed

lemma newline_indent_valid: "valid_text (newline_indent l)"
  by (intro valid_text_ascii) (auto simp: newline_indent_def)

lemma join_valid:
  "valid_text sep \<Longrightarrow> \<forall>x\<in>set xs. valid_text x \<Longrightarrow> valid_text (join sep xs)"
  by (induction sep xs rule: join.induct) (simp_all add: valid_text_simps)

lemma lit_valid:
  "valid_text (lit ''null'')" "valid_text (lit ''true'')" "valid_text (lit ''false'')"
  "valid_text (lit ''[]'')" "valid_text (lit ''{}'')"
  by (simp_all add: valid_text_def lit_def is_high_surrogate_def is_low_surrogate_def)

lemma sep_valid: "valid_text (COMMA # newline_indent l)" "valid_text [c] = valid_text [c]"
  "valid_text [LBRACKET]" "valid_text [RBRACKET]" "valid_text [LBRACE]" "valid_text [RBRACE]"
  "valid_text [COLON, 32]"
  using newline_indent_valid [of l]
  by (simp_all add: valid_text_simps is_high_surrogate_def is_low_surrogate_def)

lemma encode_valid: "wf_json v \<Longrightarrow> valid_text (encode lvl v)"
proof (induction v arbitrary: lvl)
  case (JArray vs)
  have "valid_text (join (COMMA # newline_indent (Suc lvl)) (map (encode (Suc lvl)) vs))"
    using JArray by (intro join_valid sep_valid) auto
  then show ?case
    using sep_valid(3,4) newline_indent_valid
    by (simp add: lit_valid valid_text_simps)
next
  case (JObject kvs)
  have "valid_text (encode_item (Suc lvl) kv)" if "kv \<in> set kvs" for kv
  proof -
    have "snd kv \<in> Basic_BNFs.snds kv" by (cases kv) simp
    moreover have "wf_json (snd kv)" using JObject.prems that by simp
    ultimately have "valid_text (encode (Suc lvl) (snd kv))" using JObject.IH that by blast
    then show ?thesis using encode_string_valid sep_valid(7) by (simp add: valid_text_simps)
  qed
  then have "valid_text (join (COMMA # newline_indent (Suc lvl)) (map (encode_item (Suc lvl)) kvs))"
    by (intro join_valid sep_valid) auto
  then show ?case
    using sep_valid(5,6) newline_indent_valid
    by (simp add: lit_valid valid_text_simps)
qed (simp_all add: lit_valid int_str_valid encode_string_valid wf_float_def)

lemma json_dumps_valid: "wf_json v \<Longrightarrow> valid_file (Some (Text (json_dumps v)))"
  by (simp add: valid_file_def json_dumps_def encode_valid)

lemma load_data_wf:
  assumes "valid_file f" "load_data f = Inr v"
  shows "wf_json v"
proof (cases f)
  case None
  with assms show ?thesis by (auto simp: load_data_def)
next
  case (Some c)
  with assms(1) obtain t where c: "c = Text t" and vt: "valid_text t"
    by (cases c) (simp_all add: valid_file_def)
  show ?thesis
  proof (cases "json_loads t")
    case (Inl e)
    with Some c assms json_loads_error [OF Inl] show ?thesis
      by (auto simp: load_data_def json_load_def)
  next
    case (Inr w)
    with Some c assms have "v = w" by (simp add: load_data_def json_load_def)
    with json_loads_wf [OF vt] Inr show ?thesis by simp
  qed
qed

lemma save_then_load_wf:
  assumes "valid_file f" and "load_data f = Inr (JArray s)" and "wf_json r"
  shows "save_data f r = Inr (Some (Text (json_dumps (JArray (s @ [r])))))
    \<and> load_data (Some (Text (json_dumps (JArray (s @ [r]))))) = Inr (JArray (s @ [r]))
    \<and> wf_json (JArray (s @ [r]))"
proof -
  have "wf_json (JArray s)" using assms(1,2) by (rule load_data_wf)
  then have w: "wf_json (JArray (s @ [r]))" using assms(3) by simp
  then have "json_loads (json_dumps (JArray (s @ [r]))) = Inr (JArray (s @ [r]))"
    by (rule loads_dumps)
  then have "load_data (Some (Text (json_dumps (JArray (s @ [r]))))) = Inr (JArray (s @ [r]))"
    by (simp add: load_data_def json_load_def)
  moreover have "save_data f r = Inr (Some (Text (json_dumps (JArray (s @ [r])))))"
    using assms(2) by (rule save_data_list)
  ultimately show ?thesis using w by simp
qed

section \<open>The records of the submission path\<close>

lemma dot_star_close_subset: "dot_star_close k cs = Some g \<Longrightarrow> set g \<subseteq> set cs"
  using dot_star_close_Some [of k cs g] by auto

lemma brace_group_subset: "brace_group k t = Some g \<Longrightarrow> set g \<subseteq> set t"
  using dot_star_close_subset
  by (fastforce simp: brace_group_def split: list.splits if_splits)

lemma match_fenced_subset: "match_fenced t = Some g \<Longrightarrow> set g \<subseteq> set t"
proof -
  assume "match_fenced t = Some g"
  then have "set g \<subseteq> set (dropWhile is_space (drop 7 t))"
    by (auto simp: match_fenced_def split: if_splits dest: brace_group_subset)
  also have "\<dots> \<subseteq> set (drop 7 t)" by (auto dest: set_dropWhileD)
  also have "\<dots> \<subseteq> set t" by (rule set_drop_subset)
  finally show ?thesis .
qed

lemma re_search_subset:
  "re_search t = Some (g1, g2) \<Longrightarrow> group_or g1 g2 = Some js \<Longrightarrow> set js \<subseteq> set t"
proof (induction t)
  case Nil
  then show ?case by simp
next
  case (Cons c t)
  show ?case
  proof (cases "match_fenced (c # t)")
    case (Some g)
    with Cons.prems(1) have "g1 = Some g" "g2 = None" by simp_all
    with Cons.prems(2) have "js = g" by (cases g) (simp_all add: group_or_def)
    with match_fenced_subset [OF Some] show ?thesis by simp
  next
    case None
    show ?thesis
    proof (cases "match_braces (c # t)")
      case (Some g)
      with None Cons.prems(1) have "g1 = None" "g2 = Some g" by simp_all
      with Cons.prems(2) have "js = g" by (simp add: group_or_def)
      with brace_group_subset [of "\<lambda>r. True" "c # t" g] Some show ?thesis
        by (simp add: match_braces_def)
    next
      case N: None
      with None Cons show ?thesis by auto
    qed
  qed
qed

lemma strip_subset: "set (strip t) \<subseteq> set t"
  by (auto simp: strip_def dest!: set_dropWhileD)

lemma wf_fallback: "wf_json fallback"
  by (simp add: fallback_def lit_def is_high_surrogate_def is_low_surrogate_def)

lemma analyze_feedback_wf:
  assumes "service_ok generate_content"
  shows "wf_json (fst (analyze_feedback generate_content rating review))"
proof (cases "analyze_try generate_content rating review")
  case (Inl e)
  then show ?thesis by (simp add: analyze_feedback_def wf_fallback)
next
  case (Inr v)
  then obtain t where t: "generate_content (prompt rating review) = Inr t"
    by (auto simp: analyze_try_def split: sum.splits)
  with assms have "valid_text t" by (auto simp: service_ok_def)
  then have vs: "valid_text (strip t)" using strip_subset by (rule valid_text_subset [rotated])
  have "\<exists>js. valid_text js \<and> json_loads js = Inr v"
  proof (cases "re_search (strip t)")
    case None
    with Inr t vs show ?thesis by (auto simp: analyze_try_def)
  next
    case (Some g)
    obtain g1 g2 where g: "g = (g1, g2)" by (cases g)
    with Some Inr t obtain js where js: "group_or g1 g2 = Some js" "json_loads js = Inr v"
      by (auto simp: analyze_try_def split: option.splits)
    from re_search_subset [of "strip t" g1 g2 js] Some g js(1) have "set js \<subseteq> set (strip t)"
      by simp
    with vs js(2) show ?thesis by (auto intro: valid_text_subset)
  qed
  with json_loads_wf have "wf_json v" by blast
  with Inr show ?thesis by (simp add: analyze_feedback_def)
qed

lemma py_get_wf:
  "wf_json d \<Longrightarrow> wf_json dflt \<Longrightarrow> py_get d k dflt = Inr x \<Longrightarrow> wf_json x"
  by (cases d) (auto simp: py_get_def split: option.splits dest!: map_of_SomeD)

lemma six_keys_wf:
  "wf_str (lit ''timestamp'')" "wf_str (lit ''rating'')" "wf_str (lit ''review'')"
  "wf_str (lit ''ai_response'')" "wf_str (lit ''ai_summary'')" "wf_str (lit ''ai_action'')"
  by (simp_all add: lit_def is_high_surrogate_def is_low_surrogate_def)

lemma make_entry_wf:
  assumes "wf_str now" "wf_str review" "wf_json ai"
    and "make_entry now rating review ai = Inr e"
  shows "wf_json e \<and> six_fields e"
proof -
  from assms(4) obtain r s a where
    g: "py_get ai (lit ''user_response'') (JString []) = Inr r"
      "py_get ai (lit ''summary'') (JString []) = Inr s"
      "py_get ai (lit ''action'') (JString []) = Inr a"
    and e: "e = JObject [(lit ''timestamp'', JString now), (lit ''rating'', JInt rating),
                   (lit ''review'', JString review), (lit ''ai_response'', r),
                   (lit ''ai_summary'', s), (lit ''ai_action'', a)]"
    by (auto simp: make_entry_def split: sum.splits)
  have "wf_json r" "wf_json s" "wf_json a"
    using g assms(3) by (auto intro: py_get_wf [of ai "JString []"])
  moreover have "distinct [lit ''timestamp'', lit ''rating'', lit ''review'',
      lit ''ai_response'', lit ''ai_summary'', lit ''ai_action'']"
    by (simp add: lit_def)
  ultimately show ?thesis using e assms(1,2) six_keys_wf by (simp add: six_fields_def)
qed

lemma feedback_form_entry:
  assumes "feedback_form generate_content now True rating review st = Inr st'" "review \<noteq> []"
  shows "\<exists>s entry. make_entry now rating review (fst (analyze_feedback generate_content rating review))
         = Inr entry
       \<and> load_data (data_file st) = Inr (JArray s)
       \<and> data_file st' = Some (Text (json_dumps (JArray (s @ [entry]))))"
proof -
  obtain ai shown where af: "analyze_feedback generate_content rating review = (ai, shown)"
    by (cases "analyze_feedback generate_content rating review")
  with assms obtain entry where me: "make_entry now rating review ai = Inr entry"
    by (auto simp: feedback_form_def split: sum.splits)
  with assms af obtain f' where sd: "save_data (data_file st) entry = Inr f'" "data_file st' = f'"
    by (auto simp: feedback_form_def split: sum.splits)
  then obtain s where "load_data (data_file st) = Inr (JArray s)"
      "f' = Some (Text (json_dumps (JArray (s @ [entry]))))"
    by (auto simp: save_data_def split: sum.splits json.splits)
  with me sd af show ?thesis by auto
qed

text \<open>
  C8. Let \<open>load_data\<close> read the list \<open>s\<close> from a file of text, and let \<open>r\<close> be the record
  that the submission path builds from a timestamp, a rating, a review and the
  analyzer's result, with a service that answers with text. Then \<open>save_data\<close> succeeds,
  and \<open>load_data\<close> reads from the new file a list with one element more, whose first
  elements are \<open>s\<close> and whose last element is \<open>r\<close>.
\<close>

theorem save_then_load:
  assumes "service_ok generate_content" "valid_text now" "valid_text review"
    and "make_entry now rating review (fst (analyze_feedback generate_content rating review)) = Inr r"
    and "valid_file f" "load_data f = Inr (JArray s)"
  shows "\<exists>f' xs. save_data f r = Inr f' \<and> load_data f' = Inr (JArray xs)
    \<and> length xs = length s + 1 \<and> take (length s) xs = s \<and> last xs = r"
proof -
  have "wf_json r"
    using make_entry_wf [OF valid_text_wf_str [OF assms(2)] valid_text_wf_str [OF assms(3)]
        analyze_feedback_wf [OF assms(1)] assms(4)] by simp
  from save_then_load_wf [OF assms(5,6) this] show ?thesis by simp
qed

lemma reachable_invariant:
  "reachable f \<Longrightarrow>
   valid_file f \<and> (\<exists>s. load_data f = Inr (JArray s) \<and> (\<forall>e\<in>set s. six_fields e))"
proof (induction rule: reachable.induct)
  case start
  then show ?case by (simp add: valid_file_def load_data_def)
next
  case (submit f generate_content now review submitted rating scr st')
  from submit.IH obtain s where
    s: "valid_file f" "load_data f = Inr (JArray s)" "\<forall>e\<in>set s. six_fields e" by blast
  show ?case
  proof (cases "submitted \<and> review \<noteq> []")
    case False
    with submit.hyps(5) have "data_file st' = f" by (auto simp: feedback_form_def)
    with s show ?thesis by auto
  next
    case True
    with submit.hyps(5) feedback_form_entry [of generate_content now rating review
        "\<lparr>data_file = f, screen = scr\<rparr>" st']
    obtain s' entry where
      e: "make_entry now rating review (fst (analyze_feedback generate_content rating review))
            = Inr entry"
        "load_data f = Inr (JArray s')" "data_file st' = Some (Text (json_dumps (JArray (s' @ [entry]))))"
      by auto
    with s(2) have ss: "s' = s" by simp
    have w: "wf_json entry \<and> six_fields entry"
      using make_entry_wf [OF valid_text_wf_str [OF submit.hyps(3)]
          valid_text_wf_str [OF submit.hyps(4)] analyze_feedback_wf [OF submit.hyps(2)] e(1)] .
    from save_then_load_wf [OF s(1,2), of entry] w
    have "load_data (Some (Text (json_dumps (JArray (s @ [entry]))))) = Inr (JArray (s @ [entry]))"
      "wf_json (JArray (s @ [entry]))" by auto
    with e(3) ss s(3) w json_dumps_valid [of "JArray (s @ [entry])"] show ?thesis by auto
  qed
qed

text \<open>A store with one record, and a submission whose analysis lacks two keys.\<close>

theorem save_then_load_witness:
  \<open>\<exists>f' xs. save_data (Some (Text (lit ''[{"rating": 4}]'')))
        (JObject [(lit ''timestamp'', JString (lit ''2025-01-01 10:00:00'')), (lit ''rating'', JInt 2),
                  (lit ''review'', JString (lit ''slow'')), (lit ''ai_response'', JString []),
                  (lit ''ai_summary'', JString (lit ''late'')), (lit ''ai_action'', JString [])])
        = Inr f'
     \<and> load_data f' = Inr (JArray xs)
     \<and> length xs = length [JObject [(lit ''rating'', JInt 4)]] + 1
     \<and> take (length [JObject [(lit ''rating'', JInt 4)]]) xs = [JObject [(lit ''rating'', JInt 4)]]
     \<and> last xs = JObject [(lit ''timestamp'', JString (lit ''2025-01-01 10:00:00'')), (lit ''rating'', JInt 2),
                  (lit ''review'', JString (lit ''slow'')), (lit ''ai_response'', JString []),
                  (lit ''ai_summary'', JString (lit ''late'')), (lit ''ai_action'', JString [])]\<close>
proof -
  have 1: \<open>service_ok (respond (lit ''{"summary": "late"}''))\<close>
    by (simp add: service_ok_def respond_def valid_text_def lit_def
        is_high_surrogate_def is_low_surrogate_def)
  have 2: "valid_text (lit ''2025-01-01 10:00:00'')"
    by (simp add: valid_text_def lit_def is_high_surrogate_def is_low_surrogate_def)
  have 3: "valid_text (lit ''slow'')"
    by (simp add: valid_text_def lit_def is_high_surrogate_def is_low_surrogate_def)
  have a: \<open>fst (analyze_feedback (respond (lit ''{"summary": "late"}'')) 2 (lit ''slow''))
      = JObject [(lit ''summary'', JString (lit ''late''))]\<close>
    by (simp add: analyze_feedback_def analyze_try_def respond_def eval_search eval_loads)
  have 4: \<open>make_entry (lit ''2025-01-01 10:00:00'') 2 (lit ''slow'')
      (fst (analyze_feedback (respond (lit ''{"summary": "late"}'')) 2 (lit ''slow'')))
      = Inr (JObject [(lit ''timestamp'', JString (lit ''2025-01-01 10:00:00'')), (lit ''rating'', JInt 2),
                  (lit ''review'', JString (lit ''slow'')), (lit ''ai_response'', JString []),
                  (lit ''ai_summary'', JString (lit ''late'')), (lit ''ai_action'', JString [])])\<close>
    unfolding a by (simp add: make_entry_def py_get_def lit_def)
  have 5: \<open>valid_file (Some (Text (lit ''[{"rating": 4}]'')))\<close>
    by (simp add: valid_file_def valid_text_def lit_def is_high_surrogate_def is_low_surrogate_def)
  have 6: \<open>load_data (Some (Text (lit ''[{"rating": 4}]''))) = Inr (JArray [JObject [(lit ''rating'', JInt 4)]])\<close>
    by (simp add: load_data_def json_load_def eval_loads)
  show ?thesis by (rule save_then_load [OF 1 2 3 4 5 6])
qed

lemma make_entry_six: "make_entry now rating review ai = Inr e \<Longrightarrow> six_fields e"
  by (auto simp: make_entry_def six_fields_def split: sum.splits)

lemma make_entry_fallback:
  "make_entry now rating review fallback = Inr e \<Longrightarrow>
   field e (lit ''ai_response'') = Some (JString (lit ''Thank you for sharing your experience. We are currently experiencing a system issue and will address your feedback shortly.''))
   \<and> field e (lit ''ai_summary'') = Some (JString (lit ''System/API Error''))
   \<and> field e (lit ''ai_action'') = Some (JString (lit ''Check system logs and API usage.''))"
  by (auto simp: make_entry_def py_get_def fallback_def field_def lit_def)

text \<open>
  C9. Every state of the file that the form reaches from an absent file is read by
  \<open>load_data\<close> as a list of records with the six fields. Every submission that succeeds
  writes the list it loaded with one record more; the record has the six fields, and
  when the analyzer's \<open>try\<close> failed, its three AI fields hold the fallback strings.
\<close>

theorem stored_records_six_fields:
  "(reachable f \<longrightarrow> (\<exists>s. load_data f = Inr (JArray s) \<and> (\<forall>e\<in>set s. six_fields e)))
   \<and> (review \<noteq> [] \<and> feedback_form generate_content now True rating review st = Inr st' \<longrightarrow>
       (\<exists>s entry. load_data (data_file st) = Inr (JArray s)
          \<and> data_file st' = Some (Text (json_dumps (JArray (s @ [entry]))))
          \<and> six_fields entry
          \<and> (\<forall>e. analyze_try generate_content rating review = Inl e \<longrightarrow>
               field entry (lit ''ai_response'') = Some (JString (lit ''Thank you for sharing your experience. We are currently experiencing a system issue and will address your feedback shortly.''))
             \<and> field entry (lit ''ai_summary'') = Some (JString (lit ''System/API Error''))
             \<and> field entry (lit ''ai_action'') = Some (JString (lit ''Check system logs and API usage.'')))))"
proof (intro conjI impI)
  assume "reachable f"
  then show "\<exists>s. load_data f = Inr (JArray s) \<and> (\<forall>e\<in>set s. six_fields e)"
    using reachable_invariant by blast
next
  assume a: "review \<noteq> [] \<and> feedback_form generate_content now True rating review st = Inr st'"
  with feedback_form_entry [of generate_content now rating review st st'] obtain s entry where
    e: "make_entry now rating review (fst (analyze_feedback generate_content rating review)) = Inr entry"
      "load_data (data_file st) = Inr (JArray s)"
      "data_file st' = Some (Text (json_dumps (JArray (s @ [entry]))))"
    by auto
  have "field entry (lit ''ai_response'') = Some (JString (lit ''Thank you for sharing your experience. We are currently experiencing a system issue and will address your feedback shortly.''))
             \<and> field entry (lit ''ai_summary'') = Some (JString (lit ''System/API Error''))
             \<and> field entry (lit ''ai_action'') = Some (JString (lit ''Check system logs and API usage.''))"
    if "analyze_try generate_content rating review = Inl x" for x
  proof -
    from that have "fst (analyze_feedback generate_content rating review) = fallback"
      by (simp add: analyze_feedback_def)
    with e(1) show ?thesis using make_entry_fallback by simp
  qed
  with e make_entry_six [OF e(1)] show "\<exists>s entry. load_data (data_file st) = Inr (JArray s)
          \<and> data_file st' = Some (Text (json_dumps (JArray (s @ [entry]))))
          \<and> six_fields entry
          \<and> (\<forall>e. analyze_try generate_content rating review = Inl e \<longrightarrow>
               field entry (lit ''ai_response'') = Some (JString (lit ''Thank you for sharing your experience. We are currently experiencing a system issue and will address your feedback shortly.''))
             \<and> field entry (lit ''ai_summary'') = Some (JString (lit ''System/API Error''))
             \<and> field entry (lit ''ai_action'') = Some (JString (lit ''Check system logs and API usage.'')))"
    by blast
qed

text \<open>The store after one submission during an outage of the service.\<close>

theorem stored_records_six_fields_witness:
  "(\<exists>s. load_data (Some (Text (json_dumps (JArray [outage_record])))) = Inr (JArray s)
        \<and> (\<forall>e\<in>set s. six_fields e))
   \<and> (\<exists>s entry. load_data None = Inr (JArray s)
        \<and> Some (Text (json_dumps (JArray [outage_record]))) = Some (Text (json_dumps (JArray (s @ [entry]))))
        \<and> six_fields entry
        \<and> field entry (lit ''ai_summary'') = Some (JString (lit ''System/API Error'')))"
proof -
  let ?gen = "failing (ServiceError (lit ''timeout''))"
  let ?now = "lit ''2025-01-01 10:00:00''"
  let ?st = "\<lparr>data_file = None, screen = []\<rparr>"
  let ?st' = "\<lparr>data_file = Some (Text (json_dumps (JArray [outage_record]))),
      screen = [StError (ServiceError (lit ''timeout'')), StSuccess (lit ''Thank you!''),
                StInfo (ai_response_of outage_record)]\<rparr>"
  have at: "analyze_try ?gen 1 (lit ''bad'') = Inl (ServiceError (lit ''timeout''))"
    by (simp add: analyze_try_def failing_def)
  have me: "make_entry ?now 1 (lit ''bad'') fallback = Inr outage_record"
    by (simp add: make_entry_def py_get_def fallback_def outage_record_def lit_def)
  have ff: "feedback_form ?gen ?now True 1 (lit ''bad'') ?st = Inr ?st'"
    using at me by (simp add: feedback_form_def analyze_feedback_def save_data_def load_data_def)
      (simp add: lit_def)
  have ok: "service_ok ?gen" by (simp add: service_ok_def failing_def)
  have v: "valid_text ?now" "valid_text (lit ''bad'')"
    by (simp_all add: valid_text_def lit_def is_high_surrogate_def is_low_surrogate_def)
  have "reachable (data_file ?st')"
    using reachable.start ok v ff by (rule reachable.submit)
  then have r: "reachable (Some (Text (json_dumps (JArray [outage_record]))))" by simp
  have ne: "lit ''bad'' \<noteq> []" by (simp add: lit_def)
  note th = stored_records_six_fields [of "Some (Text (json_dumps (JArray [outage_record])))"
      "lit ''bad''" ?gen ?now 1 ?st ?st']
  from th r have 1: "\<exists>s. load_data (Some (Text (json_dumps (JArray [outage_record])))) = Inr (JArray s)
        \<and> (\<forall>e\<in>set s. six_fields e)" by blast
  from th ne ff at have 2: "\<exists>s entry. load_data None = Inr (JArray s)
        \<and> Some (Text (json_dumps (JArray [outage_record]))) = Some (Text (json_dumps (JArray (s @ [entry]))))
        \<and> six_fields entry
        \<and> field entry (lit ''ai_summary'') = Some (JString (lit ''System/API Error''))"
    by auto
  from 1 2 show ?thesis by blast
qed

end
